theory Spec2Isabelle
  imports
    Complex_Main
    "HOL-Library.Word"
    "HOL-Library.Char_ord"
    "HOL-Library.List_Lexorder"
begin

section \<open>Data model\<close>

text \<open>
  The generator is the TypeScript module \<^verbatim>\<open>ulid.ts\<close> (with \<^verbatim>\<open>validateTimestamp\<close>,
  \<^verbatim>\<open>incrementBase32\<close>, \<^verbatim>\<open>decodeTime\<close> and \<^verbatim>\<open>ulidFactory\<close>).

  A JavaScript \<^verbatim>\<open>number\<close> is a double: \<^verbatim>\<open>NaN\<close>, one of the two infinities, or a finite
  value. Every finite double is a rational, and the operations the module applies to a
  number before it has been validated (\<^verbatim>\<open>isNaN\<close>, the two comparisons, \<^verbatim>\<open>Number.isInteger\<close>,
  truthiness) are exact on doubles, so a finite number is modelled by its rational value
  (\<^verbatim>\<open>-0\<close> and \<^verbatim>\<open>0\<close> coincide; the module never distinguishes them).
\<close>

datatype number = NaN | PosInfinity | NegInfinity | Finite rat

type_synonym ULID = string

text \<open>
  Every \<^verbatim>\<open>throw new Error(...)\<close> of the module is one constructor, named after its
  message. \<open>UndefinedProperty\<close> is the runtime's own \<^verbatim>\<open>TypeError\<close> for reading
  \<^verbatim>\<open>.length\<close> of \<^verbatim>\<open>undefined\<close>.
\<close>

datatype error =
    TimestampNotANumber     \<comment> \<open>\<^verbatim>\<open>timestamp must be a number\<close>\<close>
  | TimestampTooLarge       \<comment> \<open>\<^verbatim>\<open>cannot encode a timestamp larger than 2^48 - 1\<close>\<close>
  | TimestampNegative       \<comment> \<open>\<^verbatim>\<open>timestamp must be positive\<close>\<close>
  | TimestampNotInteger     \<comment> \<open>\<^verbatim>\<open>timestamp must be an integer\<close>\<close>
  | IncrementTooLong        \<comment> \<open>\<^verbatim>\<open>Base32 value to increment cannot be longer than 16 characters\<close>\<close>
  | IncrementMaximum        \<comment> \<open>\<^verbatim>\<open>Cannot increment Base32 maximum value\<close>\<close>
  | IncorrectlyEncoded      \<comment> \<open>\<^verbatim>\<open>Incorrectly encoded string\<close>\<close>
  | FailedIncrementing      \<comment> \<open>\<^verbatim>\<open>Failed incrementing string\<close>\<close>
  | MalformedULID           \<comment> \<open>\<^verbatim>\<open>Malformed ULID\<close>\<close>
  | TimeDecodeInvalidChar string  \<comment> \<open>\<^verbatim>\<open>Time decode error: Invalid character: c\<close>\<close>
  | DecodedTimeTooLarge int \<comment> \<open>\<^verbatim>\<open>Malformed ULID: timestamp too large: t\<close>\<close>
  | UndefinedProperty       \<comment> \<open>\<^verbatim>\<open>TypeError: Cannot read properties of undefined\<close>\<close>

subsection \<open>Constants\<close>

definition ENCODING :: string where
  "ENCODING = ''0123456789ABCDEFGHJKMNPQRSTVWXYZ''"

definition ENCODING_LEN :: int where
  "ENCODING_LEN = int (length ENCODING)"

definition TIME_MAX :: int where
  "TIME_MAX = 2 ^ 48 - 1"

definition TIME_LEN :: nat where
  "TIME_LEN = 10"

definition RANDOM_LEN :: nat where
  "RANDOM_LEN = 16"

subsection \<open>JavaScript primitives used by the module\<close>

definition isNaN :: "number \<Rightarrow> bool" where
  "isNaN x = (case x of NaN \<Rightarrow> True | _ \<Rightarrow> False)"

text \<open>The comparisons of a number with a finite integer \<open>k\<close>; any comparison with NaN is false.\<close>

definition num_gt :: "number \<Rightarrow> int \<Rightarrow> bool" where
  "num_gt x k = (case x of NaN \<Rightarrow> False | PosInfinity \<Rightarrow> True | NegInfinity \<Rightarrow> False
                 | Finite r \<Rightarrow> of_int k < r)"

definition num_lt :: "number \<Rightarrow> int \<Rightarrow> bool" where
  "num_lt x k = (case x of NaN \<Rightarrow> False | PosInfinity \<Rightarrow> False | NegInfinity \<Rightarrow> True
                 | Finite r \<Rightarrow> r < of_int k)"

definition isInteger :: "number \<Rightarrow> bool" where
  "isInteger x = (case x of Finite r \<Rightarrow> of_int \<lfloor>r\<rfloor> = r | _ \<Rightarrow> False)"

text \<open>Truthiness of a number: \<^verbatim>\<open>0\<close> and \<^verbatim>\<open>NaN\<close> are falsy.\<close>

definition truthy :: "number \<Rightarrow> bool" where
  "truthy x = (case x of NaN \<Rightarrow> False | Finite r \<Rightarrow> r \<noteq> 0 | _ \<Rightarrow> True)"

text \<open>\<^verbatim>\<open>s.charAt(i)\<close>: the one-character string at \<open>i\<close>, the empty string out of range.\<close>

definition charAt :: "string \<Rightarrow> int \<Rightarrow> string" where
  "charAt s i = (if 0 \<le> i \<and> i < int (length s) then [s ! nat i] else [])"

text \<open>
  \<^verbatim>\<open>s[i]\<close> where the result is used as a string (concatenated, or passed to
  \<^verbatim>\<open>indexOf\<close>): out of range it is \<^verbatim>\<open>undefined\<close>, which both uses coerce to the
  text \<^verbatim>\<open>undefined\<close>.
\<close>

definition str_index :: "string \<Rightarrow> int \<Rightarrow> string" where
  "str_index s i = (if 0 \<le> i \<and> i < int (length s) then [s ! nat i] else ''undefined'')"

text \<open>\<^verbatim>\<open>s.indexOf(pat)\<close>: the first position where \<open>pat\<close> occurs in \<open>s\<close>, or \<open>-1\<close>.\<close>

fun starts_with :: "string \<Rightarrow> string \<Rightarrow> bool" where
  "starts_with s [] = True"
| "starts_with [] (p # ps) = False"
| "starts_with (c # cs) (p # ps) = (c = p \<and> starts_with cs ps)"

fun indexOf_from :: "int \<Rightarrow> string \<Rightarrow> string \<Rightarrow> int" where
  "indexOf_from i [] pat = (if pat = [] then i else - 1)"
| "indexOf_from i (c # cs) pat =
     (if starts_with (c # cs) pat then i else indexOf_from (i + 1) cs pat)"

definition indexOf :: "string \<Rightarrow> string \<Rightarrow> int" where
  "indexOf s pat = indexOf_from 0 s pat"

text \<open>
  \<^verbatim>\<open>s.substr(start, length)\<close>; \<open>None\<close> is the omitted length. A negative start counts
  from the end, and the length is clamped to what is left.
\<close>

definition substr :: "string \<Rightarrow> int \<Rightarrow> int option \<Rightarrow> string" where
  "substr s start len =
     (let n = int (length s);
          st = (if start < 0 then max (n + start) 0 else min start n);
          l = (case len of None \<Rightarrow> n - st | Some k \<Rightarrow> min (max k 0) (n - st))
      in take (nat l) (drop (nat st) s))"

section \<open>The Base32 codec and the timestamp validator\<close>

definition validateTimestamp :: "number \<Rightarrow> error + unit" where
  "validateTimestamp timestamp =
     (if isNaN timestamp then Inl TimestampNotANumber
      else if num_gt timestamp TIME_MAX then Inl TimestampTooLarge
      else if num_lt timestamp 0 then Inl TimestampNegative
      else if isInteger timestamp = False then Inl TimestampNotInteger
      else Inr ())"

text \<open>
  The integer value of a number that passed \<open>validateTimestamp\<close> (such a number is
  finite and an integer).
\<close>

definition int_of_number :: "number \<Rightarrow> int" where
  "int_of_number x = (case x of Finite r \<Rightarrow> \<lfloor>r\<rfloor> | _ \<Rightarrow> 0)"

text \<open>
  The loop of \<^verbatim>\<open>encodeTime\<close> runs only on a timestamp that passed
  \<^verbatim>\<open>validateTimestamp\<close>, an integer between 0 and \<open>2^48 - 1\<close>; on such values the
  double arithmetic of \<^verbatim>\<open>%\<close>, \<^verbatim>\<open>-\<close> and \<^verbatim>\<open>/\<close> is exact and \<^verbatim>\<open>%\<close> agrees with
  \<open>mod\<close>, so the loop is over \<open>int\<close>.
\<close>

fun encodeTime_loop :: "nat \<Rightarrow> int \<Rightarrow> string \<Rightarrow> string" where
  "encodeTime_loop 0 timestamp str = str"
| "encodeTime_loop (Suc currentLen) timestamp str =
     (let md = timestamp mod ENCODING_LEN;
          str' = charAt ENCODING md @ str;
          timestamp' = (timestamp - md) div ENCODING_LEN
      in encodeTime_loop currentLen timestamp' str')"

definition encodeTime :: "number \<Rightarrow> nat \<Rightarrow> error + string" where
  "encodeTime timestamp len =
     (case validateTimestamp timestamp of
        Inl e \<Rightarrow> Inl e
      | Inr _ \<Rightarrow> Inr (encodeTime_loop len (int_of_number timestamp) []))"


subsection \<open>Random characters\<close>

text \<open>
  The host's \<^verbatim>\<open>crypto.getRandomValues\<close> is the module's only source of randomness. A
  \<open>prng\<close> is the sequence of bytes it hands out, in the order they are drawn;
  \<^verbatim>\<open>webCryptoPRNG\<close> draws one byte and returns it divided by 255, together with the rest
  of the sequence.
\<close>

text \<open>
  The quotient and the product with 32 are taken here in the rationals. The double
  quotient \<^verbatim>\<open>buffer[0] / 0xff\<close> is rounded, but for each of the 256 bytes the floor
  of 32 times it is the floor of the exact value, so \<open>randomChar\<close> picks the same
  symbol.
\<close>

type_synonym prng = "nat \<Rightarrow> 8 word"

definition webCryptoPRNG :: "prng \<Rightarrow> rat \<times> prng" where
  "webCryptoPRNG g = (of_nat (unat (g 0)) / 255, \<lambda>i. g (Suc i))"

definition randomChar :: "prng \<Rightarrow> string \<times> prng" where
  "randomChar g =
     (let (x, g') = webCryptoPRNG g;
          rand = \<lfloor>x * of_int ENCODING_LEN\<rfloor>;
          rand' = (if rand = ENCODING_LEN then ENCODING_LEN - 1 else rand)
      in (charAt ENCODING rand', g'))"

fun encodeRandom_loop :: "nat \<Rightarrow> string \<Rightarrow> prng \<Rightarrow> string \<times> prng" where
  "encodeRandom_loop 0 str g = (str, g)"
| "encodeRandom_loop (Suc len) str g =
     (let (c, g') = randomChar g in encodeRandom_loop len (c @ str) g')"

definition encodeRandom :: "nat \<Rightarrow> prng \<Rightarrow> string \<times> prng" where
  "encodeRandom len g = encodeRandom_loop len [] g"

subsection \<open>Incrementing a Base32 string\<close>

definition replaceCharAt :: "string \<Rightarrow> int \<Rightarrow> string \<Rightarrow> string" where
  "replaceCharAt str index char =
     (if index > int (length str) - 1 then str
      else substr str 0 (Some index) @ char @ substr str (index + 1) None)"

text \<open>
  The \<^verbatim>\<open>while (!done && index-- >= 0)\<close> loop. \<open>done\<close> is \<open>None\<close> while it is
  \<^verbatim>\<open>undefined\<close>; \<^verbatim>\<open>!done\<close> also holds for the empty string. The test compares the
  index before the decrement, so the body runs once more with index \<open>-1\<close> after the
  first character has been handled.
\<close>

definition not_done :: "string option \<Rightarrow> bool" where
  "not_done d = (case d of None \<Rightarrow> True | Some s \<Rightarrow> s = [])"

function incrementBase32_loop :: "string option \<Rightarrow> int \<Rightarrow> string \<Rightarrow> error + string" where
  "incrementBase32_loop done index output =
     (if not_done done \<and> index \<ge> 0 then
        (let index' = index - 1;
             char = str_index output index';
             charIndex = indexOf ENCODING char
         in if charIndex = - 1 then Inl IncorrectlyEncoded
            else if charIndex = ENCODING_LEN - 1
              then incrementBase32_loop done index'
                     (replaceCharAt output index' (str_index ENCODING 0))
              else incrementBase32_loop
                     (Some (replaceCharAt output index' (str_index ENCODING (charIndex + 1))))
                     index' output)
      else (case done of Some s \<Rightarrow> Inr s | None \<Rightarrow> Inl FailedIncrementing))"
  by pat_completeness auto
termination
  by (relation "measure (\<lambda>(d, index, output). nat (index + 1))") auto

definition incrementBase32 :: "string \<Rightarrow> error + string" where
  "incrementBase32 str =
     (if length str > RANDOM_LEN then Inl IncrementTooLong
      else if str = replicate RANDOM_LEN CHR ''Z'' then Inl IncrementMaximum
      else incrementBase32_loop None (int (length str)) str)"

section \<open>The time decoder\<close>

text \<open>
  The \<^verbatim>\<open>reduce\<close> of \<^verbatim>\<open>decodeTime\<close> over the reversed characters: \<open>index\<close> is the
  position in the reversed list, \<open>carry\<close> the sum so far. The sum stays below
  \<open>32^10 = 2^50\<close>, where the double arithmetic is exact.
\<close>

fun decodeTime_reduce :: "int \<Rightarrow> nat \<Rightarrow> string \<Rightarrow> error + int" where
  "decodeTime_reduce carry index [] = Inr carry"
| "decodeTime_reduce carry index (char # rest) =
     (let encodingIndex = indexOf ENCODING [char]
      in if encodingIndex = - 1 then Inl (TimeDecodeInvalidChar [char])
         else decodeTime_reduce (carry + encodingIndex * ENCODING_LEN ^ index) (Suc index) rest)"

definition decodeTime :: "string \<Rightarrow> error + int" where
  "decodeTime ulid =
     (if length ulid \<noteq> TIME_LEN + RANDOM_LEN then Inl MalformedULID
      else (case decodeTime_reduce 0 0 (rev (substr ulid 0 (Some (int TIME_LEN)))) of
              Inl e \<Rightarrow> Inl e
            | Inr time \<Rightarrow> if time > TIME_MAX then Inl (DecodedTimeTooLarge time)
                          else Inr time))"

section \<open>The generators\<close>

text \<open>
  The closure variables of the monotonic generator. \<open>lastRandom\<close> is \<open>None\<close> while it
  is \<^verbatim>\<open>undefined\<close>. \<open>lastTime\<close> only ever holds 0 or a validated timestamp.
\<close>

record gen_state =
  lastTime :: int
  lastRandom :: "string option"

datatype generator = Monotonic gen_state | NonMonotonic

text \<open>
  \<^verbatim>\<open>args?.monotonic ?? true\<close>: the argument is the \<^verbatim>\<open>monotonic\<close> flag, \<open>None\<close> when
  the options or the flag are left out.
\<close>

definition ulidFactory :: "bool option \<Rightarrow> generator" where
  "ulidFactory args =
     (let monotonic = (case args of None \<Rightarrow> True | Some b \<Rightarrow> b)
      in if monotonic then Monotonic \<lparr>lastTime = 0, lastRandom = None\<rparr> else NonMonotonic)"

text \<open>
  \<^verbatim>\<open>timestamp || Date.now()\<close>: \<open>timestamp\<close> is \<open>None\<close> when the caller gives none,
  \<open>now\<close> is what \<^verbatim>\<open>Date.now()\<close> returns during the call (an integer number of
  milliseconds).
\<close>

definition timestampOrNow :: "number option \<Rightarrow> int \<Rightarrow> number" where
  "timestampOrNow timestamp now =
     (case timestamp of
        None \<Rightarrow> Finite (of_int now)
      | Some t \<Rightarrow> if truthy t then t else Finite (of_int now))"

text \<open>
  One call of the monotonic generator: the result and the closure variables after the
  call. \<open>g\<close> is the bytes the random source hands out during this call. An exception
  leaves the variables as they were when it was thrown.
\<close>

definition ulid_monotonic ::
  "gen_state \<Rightarrow> prng \<Rightarrow> int \<Rightarrow> number option \<Rightarrow> (error + ULID) \<times> gen_state" where
  "ulid_monotonic st g now timestamp =
     (let ts = timestampOrNow timestamp now
      in case validateTimestamp ts of
           Inl e \<Rightarrow> (Inl e, st)
         | Inr _ \<Rightarrow>
             if int_of_number ts > lastTime st then
               (let st1 = st\<lparr>lastTime := int_of_number ts\<rparr>;
                    random = fst (encodeRandom RANDOM_LEN g);
                    st2 = st1\<lparr>lastRandom := Some random\<rparr>
                in (case encodeTime ts TIME_LEN of
                      Inl e \<Rightarrow> (Inl e, st2)
                    | Inr t \<Rightarrow> (Inr (t @ random), st2)))
             else
               (case lastRandom st of
                  None \<Rightarrow> (Inl UndefinedProperty, st)
                | Some lr \<Rightarrow>
                    (case incrementBase32 lr of
                       Inl e \<Rightarrow> (Inl e, st)
                     | Inr random \<Rightarrow>
                         (let st1 = st\<lparr>lastRandom := Some random\<rparr>
                          in (case encodeTime (Finite (of_int (lastTime st))) TIME_LEN of
                                Inl e \<Rightarrow> (Inl e, st1)
                              | Inr t \<Rightarrow> (Inr (t @ random), st1))))))"

definition ulid_nonmonotonic :: "prng \<Rightarrow> int \<Rightarrow> number option \<Rightarrow> error + ULID" where
  "ulid_nonmonotonic g now timestamp =
     (let ts = timestampOrNow timestamp now
      in case validateTimestamp ts of
           Inl e \<Rightarrow> Inl e
         | Inr _ \<Rightarrow>
             (case encodeTime ts TIME_LEN of
                Inl e \<Rightarrow> Inl e
              | Inr t \<Rightarrow> Inr (t @ fst (encodeRandom RANDOM_LEN g))))"

text \<open>A call of the function \<open>ulidFactory\<close> returned.\<close>

fun generate :: "generator \<Rightarrow> prng \<Rightarrow> int \<Rightarrow> number option \<Rightarrow> (error + ULID) \<times> generator" where
  "generate (Monotonic st) g now timestamp =
     (let (r, st') = ulid_monotonic st g now timestamp in (r, Monotonic st'))"
| "generate NonMonotonic g now timestamp = (ulid_nonmonotonic g now timestamp, NonMonotonic)"

text \<open>
  A sequence of calls on one generator: each call has its own timestamp argument, clock
  reading and random bytes. The results are listed in call order.
\<close>

type_synonym call = "number option \<times> int \<times> prng"

fun run :: "generator \<Rightarrow> call list \<Rightarrow> (error + ULID) list" where
  "run gen [] = []"
| "run gen ((timestamp, now, g) # calls) =
     (let (r, gen') = generate gen g now timestamp in r # run gen' calls)"


section \<open>Notions used to state the properties\<close>

text \<open>A string is well formed when each of its characters is one of the 32 symbols.\<close>

definition wellformed :: "string \<Rightarrow> bool" where
  "wellformed s = list_all (\<lambda>c. c \<in> set ENCODING) s"

text \<open>
  The value of a Base32 string as the specification describes decoding: the characters
  are read most significant first, and each step multiplies the sum by 32 and adds the
  value of the digit. It is compared below with the \<^verbatim>\<open>reduce\<close> of \<open>decodeTime\<close>,
  which reads the reversed string with powers of 32.
\<close>

definition decode_integer :: "string \<Rightarrow> int" where
  "decode_integer s = foldl (\<lambda>sum c. sum * 32 + indexOf ENCODING [c]) 0 s"

text \<open>
  The generators a program can hold: the one \<open>ulidFactory\<close> returns, and what any
  call, failed or not, makes of a generator it can hold.
\<close>

inductive reachable :: "generator \<Rightarrow> bool" where
  fresh: "reachable (ulidFactory args)"
| call: "reachable gen \<Longrightarrow> generate gen g now timestamp = (r, gen') \<Longrightarrow> reachable gen'"

text \<open>
  What holds of the closure variables of every monotonic generator (shown below):
  \<open>lastTime\<close> is a valid timestamp and \<open>lastRandom\<close>, once set, is a well-formed
  string of 16 characters.
\<close>

definition state_ok :: "gen_state \<Rightarrow> bool" where
  "state_ok st \<longleftrightarrow>
     0 \<le> lastTime st \<and> lastTime st \<le> TIME_MAX \<and>
     (case lastRandom st of None \<Rightarrow> True | Some r \<Rightarrow> length r = 16 \<and> wellformed r)"

section \<open>The alphabet\<close>

lemma length_ENCODING: "length ENCODING = 32"
  by (simp add: ENCODING_def)

lemma ENCODING_LEN_eq: "ENCODING_LEN = 32"
  by (simp add: ENCODING_LEN_def length_ENCODING)

lemma distinct_ENCODING: "distinct ENCODING"
  by (simp add: ENCODING_def)

lemma strict_sorted_ENCODING: "sorted_wrt (<) ENCODING"
  by (simp add: ENCODING_def)

lemma indexOf_from_notin: "p \<notin> set s \<Longrightarrow> indexOf_from i s [p] = - 1"
  by (induction s arbitrary: i) auto

lemma indexOf_from_nth:
  "distinct s \<Longrightarrow> n < length s \<Longrightarrow> indexOf_from i s [s ! n] = i + int n"
proof (induction s arbitrary: i n)
  case Nil
  then show ?case by simp
next
  case (Cons c cs)
  show ?case
  proof (cases n)
    case 0
    then show ?thesis by simp
  next
    case (Suc m)
    with Cons.prems have "cs ! m \<noteq> c" "m < length cs" "distinct cs"
      by auto
    with Cons.IH [of m "i + 1"] Suc show ?thesis
      by auto
  qed
qed

lemma indexOf_nth: "n < 32 \<Longrightarrow> indexOf ENCODING [ENCODING ! n] = int n"
  unfolding indexOf_def
  using indexOf_from_nth [OF distinct_ENCODING, of n 0] by (simp add: length_ENCODING)

lemma indexOf_notin: "c \<notin> set ENCODING \<Longrightarrow> indexOf ENCODING [c] = - 1"
  by (simp add: indexOf_def indexOf_from_notin)

lemma indexOf_in:
  assumes "c \<in> set ENCODING"
  shows "0 \<le> indexOf ENCODING [c] \<and> indexOf ENCODING [c] < 32 \<and>
         ENCODING ! nat (indexOf ENCODING [c]) = c"
proof -
  from assms obtain n where n: "n < length ENCODING" "ENCODING ! n = c"
    by (auto simp: in_set_conv_nth)
  then have "indexOf ENCODING [c] = int n"
    using indexOf_nth [of n] by (simp add: length_ENCODING)
  with n show ?thesis
    by (simp add: length_ENCODING)
qed

lemma indexOf_undefined: "indexOf ENCODING ''undefined'' = - 1"
  by (simp add: indexOf_def ENCODING_def)

lemma indexOf_Z: "indexOf ENCODING [c] = 31 \<longleftrightarrow> c = CHR ''Z''"
proof
  assume h: "indexOf ENCODING [c] = 31"
  then have "c \<in> set ENCODING"
    using indexOf_notin [of c] by auto
  then have "ENCODING ! nat (indexOf ENCODING [c]) = c"
    by (simp add: indexOf_in)
  with h show "c = CHR ''Z''"
    by (simp add: ENCODING_def)
next
  assume "c = CHR ''Z''"
  then show "indexOf ENCODING [c] = 31"
    by (simp add: indexOf_def ENCODING_def)
qed

section \<open>Properties of the timestamp validator\<close>

lemma validateTimestamp_Finite:
  "validateTimestamp (Finite r) =
     (if of_int TIME_MAX < r then Inl TimestampTooLarge
      else if r < 0 then Inl TimestampNegative
      else if r \<notin> \<int> then Inl TimestampNotInteger
      else Inr ())"
  by (auto simp: validateTimestamp_def isNaN_def num_gt_def num_lt_def isInteger_def
      Ints_def)

lemma validateTimestamp_of_int:
  assumes "0 \<le> t" "t \<le> TIME_MAX"
  shows "validateTimestamp (Finite (of_int t)) = Inr ()"
proof -
  have "\<not> rat_of_int TIME_MAX < rat_of_int t"
    using assms unfolding of_int_less_iff by simp
  moreover have "\<not> rat_of_int t < 0"
    using assms by simp
  ultimately show ?thesis
    by (simp add: validateTimestamp_Finite)
qed

lemma validateTimestamp_Inr:
  assumes "validateTimestamp x = Inr u"
  shows "\<exists>t. x = Finite (of_int t) \<and> 0 \<le> t \<and> t \<le> TIME_MAX"
proof (cases x)
  case (Finite r)
  with assms have r: "\<not> of_int TIME_MAX < r" "\<not> r < 0" "r \<in> \<int>"
    by (auto simp: validateTimestamp_Finite split: if_splits)
  from r(3) obtain t where t: "r = of_int t"
    by (auto simp: Ints_def)
  with r(1,2) have "0 \<le> t" "t \<le> TIME_MAX"
    by (simp_all add: not_less)
  with t Finite show ?thesis
    by blast
qed (use assms in \<open>simp_all add: validateTimestamp_def isNaN_def num_gt_def num_lt_def\<close>)

text \<open>
  Claim C8. \<open>validateTimestamp\<close> rejects each invalid class of numbers with an error
  of its own: the number that is not a number (NaN, which is also what \<^verbatim>\<open>isNaN\<close>
  makes of a non-numeric argument such as a word) with \<open>TimestampNotANumber\<close>,
  every value above \<open>2^48 - 1\<close> and positive infinity with \<open>TimestampTooLarge\<close>,
  every negative value with \<open>TimestampNegative\<close>, and every value in range that has a
  fractional part with \<open>TimestampNotInteger\<close>; the four errors differ from each
  other; and for every integer \<open>t\<close> from 0 to \<open>2^48 - 1\<close> it returns without an
  error and without a value.
\<close>

theorem validateTimestamp_classes:
  "validateTimestamp NaN = Inl TimestampNotANumber \<and>
   validateTimestamp PosInfinity = Inl TimestampTooLarge \<and>
   (2 ^ 48 - 1 < r1 \<longrightarrow> validateTimestamp (Finite r1) = Inl TimestampTooLarge) \<and>
   validateTimestamp NegInfinity = Inl TimestampNegative \<and>
   (r2 < 0 \<longrightarrow> validateTimestamp (Finite r2) = Inl TimestampNegative) \<and>
   (0 \<le> r3 \<and> r3 \<le> 2 ^ 48 - 1 \<and> r3 \<notin> \<int> \<longrightarrow>
      validateTimestamp (Finite r3) = Inl TimestampNotInteger) \<and>
   (0 \<le> t \<and> t \<le> 2 ^ 48 - 1 \<longrightarrow> validateTimestamp (Finite (of_int t)) = Inr ()) \<and>
   distinct [TimestampNotANumber, TimestampTooLarge, TimestampNegative, TimestampNotInteger]"
proof -
  have nan: "validateTimestamp NaN = Inl TimestampNotANumber"
    by (simp add: validateTimestamp_def isNaN_def)
  have pinf: "validateTimestamp PosInfinity = Inl TimestampTooLarge"
    by (simp add: validateTimestamp_def isNaN_def num_gt_def)
  have ninf: "validateTimestamp NegInfinity = Inl TimestampNegative"
    by (simp add: validateTimestamp_def isNaN_def num_gt_def num_lt_def)
  have ok: "validateTimestamp (Finite (of_int t)) = Inr ()" if "0 \<le> t" "t \<le> 2 ^ 48 - 1"
    using that by (intro validateTimestamp_of_int) (simp_all add: TIME_MAX_def)
  show ?thesis
    using nan pinf ninf ok by (simp add: validateTimestamp_Finite TIME_MAX_def)
qed

theorem validateTimestamp_classes_witness:
  "(2 ^ 48 - 1 < (2 ^ 48 :: rat)) \<and>
   validateTimestamp (Finite (2 ^ 48)) = Inl TimestampTooLarge \<and>
   (- 1 < (0 :: rat)) \<and>
   validateTimestamp (Finite (- 1)) = Inl TimestampNegative \<and>
   (0 \<le> (1001 / 10 :: rat) \<and> (1001 / 10 :: rat) \<le> 2 ^ 48 - 1 \<and> (1001 / 10 :: rat) \<notin> \<int>) \<and>
   validateTimestamp (Finite (1001 / 10)) = Inl TimestampNotInteger \<and>
   (0 \<le> (1469918176385 :: int) \<and> (1469918176385 :: int) \<le> 2 ^ 48 - 1) \<and>
   validateTimestamp (Finite (of_int 1469918176385)) = Inr ()"
proof -
  have h: "(1001 / 10 :: rat) \<notin> \<int>"
    using fraction_not_in_Ints [of 10 1001, where ?'a = rat] by simp
  show ?thesis
    using h validateTimestamp_classes [of "2 ^ 48" "- 1" "1001 / 10" 1469918176385]
    by simp
qed

section \<open>Incrementing: what the loop computes\<close>

lemma str_index_mid: "str_index (a @ x # b) (int (length a)) = [x]"
  by (simp add: str_index_def)

lemma str_index_neg: "str_index s (- 1) = ''undefined''"
  by (simp add: str_index_def)

lemma str_index_ne: "str_index s i \<noteq> []"
  by (simp add: str_index_def)

lemma replaceCharAt_mid: "replaceCharAt (a @ x # b) (int (length a)) ch = a @ ch @ b"
proof -
  have "nat (int (length a) + 1) = Suc (length a)"
    by linarith
  then show ?thesis
    by (simp add: replaceCharAt_def substr_def)
qed

lemmas [simp del] = incrementBase32_loop.simps

lemma loop_step_Z:
  "incrementBase32_loop None (int (length a) + 1) (a @ CHR ''Z'' # b) =
   incrementBase32_loop None (int (length a)) (a @ CHR ''0'' # b)"
proof -
  have z: "indexOf ENCODING [CHR ''Z''] = 31"
    by (simp add: indexOf_Z)
  have e0: "str_index ENCODING 0 = ''0''"
    by (simp add: str_index_def ENCODING_def)
  show ?thesis
    by (subst incrementBase32_loop.simps)
      (simp add: not_done_def Let_def str_index_mid z ENCODING_LEN_eq replaceCharAt_mid e0)
qed

lemma loop_carry:
  "incrementBase32_loop None (int (length p + k)) (p @ replicate k CHR ''Z'' @ q) =
   incrementBase32_loop None (int (length p)) (p @ replicate k CHR ''0'' @ q)"
proof (induction k arbitrary: q)
  case 0
  then show ?case by simp
next
  case (Suc k)
  have "incrementBase32_loop None (int (length p + Suc k)) (p @ replicate (Suc k) CHR ''Z'' @ q) =
        incrementBase32_loop None (int (length (p @ replicate k CHR ''Z'')) + 1)
          ((p @ replicate k CHR ''Z'') @ CHR ''Z'' # q)"
    by (simp add: replicate_app_Cons_same add.commute)
  also have "\<dots> = incrementBase32_loop None (int (length (p @ replicate k CHR ''Z'')))
          ((p @ replicate k CHR ''Z'') @ CHR ''0'' # q)"
    by (rule loop_step_Z)
  also have "\<dots> = incrementBase32_loop None (int (length p + k))
          (p @ replicate k CHR ''Z'' @ (CHR ''0'' # q))"
    by simp
  also have "\<dots> = incrementBase32_loop None (int (length p)) (p @ replicate k CHR ''0'' @ (CHR ''0'' # q))"
    by (rule Suc.IH)
  also have "\<dots> = incrementBase32_loop None (int (length p)) (p @ replicate (Suc k) CHR ''0'' @ q)"
    by (simp add: replicate_app_Cons_same)
  finally show ?case .
qed

lemma loop_last_ok:
  assumes "c \<in> set ENCODING" "c \<noteq> CHR ''Z''"
  shows "incrementBase32_loop None (int (length a) + 1) (a @ c # b) =
         Inr (a @ str_index ENCODING (indexOf ENCODING [c] + 1) @ b)"
proof -
  have i: "indexOf ENCODING [c] \<noteq> - 1" "indexOf ENCODING [c] \<noteq> 31"
    using assms indexOf_in [of c] indexOf_Z [of c] by auto
  have "incrementBase32_loop None (int (length a) + 1) (a @ c # b) =
        incrementBase32_loop (Some (a @ str_index ENCODING (indexOf ENCODING [c] + 1) @ b))
          (int (length a)) (a @ c # b)"
    using i
    by (subst incrementBase32_loop.simps)
      (simp add: not_done_def Let_def str_index_mid ENCODING_LEN_eq replaceCharAt_mid)
  also have "\<dots> = Inr (a @ str_index ENCODING (indexOf ENCODING [c] + 1) @ b)"
    by (subst incrementBase32_loop.simps) (simp add: not_done_def str_index_ne)
  finally show ?thesis .
qed

lemma loop_last_bad:
  assumes "c \<notin> set ENCODING"
  shows "incrementBase32_loop None (int (length a) + 1) (a @ c # b) = Inl IncorrectlyEncoded"
  using indexOf_notin [OF assms]
  by (subst incrementBase32_loop.simps) (simp add: not_done_def Let_def str_index_mid)

lemma loop_start: "incrementBase32_loop None 0 out = Inl IncorrectlyEncoded"
  by (subst incrementBase32_loop.simps)
    (simp add: not_done_def Let_def str_index_neg indexOf_undefined)

lemma incrementBase32_ok:
  assumes "length (p @ c # replicate k CHR ''Z'') \<le> 16" "c \<in> set ENCODING" "c \<noteq> CHR ''Z''"
  shows "incrementBase32 (p @ c # replicate k CHR ''Z'') =
         Inr (p @ str_index ENCODING (indexOf ENCODING [c] + 1) @ replicate k CHR ''0'')"
proof -
  have ne: "p @ c # replicate k CHR ''Z'' \<noteq> replicate RANDOM_LEN CHR ''Z''"
  proof
    assume "p @ c # replicate k CHR ''Z'' = replicate RANDOM_LEN CHR ''Z''"
    then have "set (p @ c # replicate k CHR ''Z'') \<subseteq> {CHR ''Z''}"
      by (metis set_replicate_conv_if empty_subsetI subset_refl)
    with assms(3) show False by simp
  qed
  have "incrementBase32 (p @ c # replicate k CHR ''Z'') =
        incrementBase32_loop None (int (length (p @ [c]) + k)) ((p @ [c]) @ replicate k CHR ''Z'' @ [])"
    using assms(1) ne by (simp add: incrementBase32_def RANDOM_LEN_def)
  also have "\<dots> = incrementBase32_loop None (int (length (p @ [c]))) ((p @ [c]) @ replicate k CHR ''0'' @ [])"
    by (rule loop_carry)
  also have "\<dots> = incrementBase32_loop None (int (length p) + 1) (p @ c # replicate k CHR ''0'')"
    by (simp add: add.commute)
  also have "\<dots> = Inr (p @ str_index ENCODING (indexOf ENCODING [c] + 1) @ replicate k CHR ''0'')"
    using assms(2,3) by (rule loop_last_ok)
  finally show ?thesis .
qed

lemma incrementBase32_bad:
  assumes "length (p @ c # replicate k CHR ''Z'') \<le> 16" "c \<notin> set ENCODING"
  shows "incrementBase32 (p @ c # replicate k CHR ''Z'') = Inl IncorrectlyEncoded"
proof -
  have cz: "c \<noteq> CHR ''Z''"
    using assms(2) by (auto simp: ENCODING_def)
  have ne: "p @ c # replicate k CHR ''Z'' \<noteq> replicate RANDOM_LEN CHR ''Z''"
  proof
    assume "p @ c # replicate k CHR ''Z'' = replicate RANDOM_LEN CHR ''Z''"
    then have "set (p @ c # replicate k CHR ''Z'') \<subseteq> {CHR ''Z''}"
      by (metis set_replicate_conv_if empty_subsetI subset_refl)
    with cz show False by simp
  qed
  have "incrementBase32 (p @ c # replicate k CHR ''Z'') =
        incrementBase32_loop None (int (length (p @ [c]) + k)) ((p @ [c]) @ replicate k CHR ''Z'' @ [])"
    using assms(1) ne by (simp add: incrementBase32_def RANDOM_LEN_def)
  also have "\<dots> = incrementBase32_loop None (int (length (p @ [c]))) ((p @ [c]) @ replicate k CHR ''0'' @ [])"
    by (rule loop_carry)
  also have "\<dots> = incrementBase32_loop None (int (length p) + 1) (p @ c # replicate k CHR ''0'')"
    by (simp add: add.commute)
  also have "\<dots> = Inl IncorrectlyEncoded"
    using assms(2) by (rule loop_last_bad)
  finally show ?thesis .
qed

lemma incrementBase32_short_max:
  assumes "k < 16"
  shows "incrementBase32 (replicate k CHR ''Z'') = Inl IncorrectlyEncoded"
proof -
  have ne: "replicate k CHR ''Z'' \<noteq> replicate RANDOM_LEN CHR ''Z''"
    using assms by (metis length_replicate RANDOM_LEN_def nat_neq_iff)
  have "incrementBase32 (replicate k CHR ''Z'') =
        incrementBase32_loop None (int (length ([] :: string) + k)) ([] @ replicate k CHR ''Z'' @ [])"
    using assms ne by (simp add: incrementBase32_def RANDOM_LEN_def)
  also have "\<dots> = incrementBase32_loop None (int (length ([] :: string))) ([] @ replicate k CHR ''0'' @ [])"
    by (rule loop_carry)
  also have "\<dots> = Inl IncorrectlyEncoded"
    by (simp add: loop_start)
  finally show ?thesis .
qed

section \<open>Well-formed strings and their values\<close>

lemma split_trailing_Z:
  "s \<noteq> replicate (length s) CHR ''Z'' \<Longrightarrow>
   \<exists>p c k. s = p @ c # replicate k CHR ''Z'' \<and> c \<noteq> CHR ''Z''"
proof (induction s rule: rev_induct)
  case Nil
  then show ?case by simp
next
  case (snoc x xs)
  show ?case
  proof (cases "x = CHR ''Z''")
    case False
    then have "xs @ [x] = xs @ x # replicate 0 CHR ''Z'' \<and> x \<noteq> CHR ''Z''"
      by simp
    then show ?thesis by blast
  next
    case True
    have "xs \<noteq> replicate (length xs) CHR ''Z''"
    proof
      assume "xs = replicate (length xs) CHR ''Z''"
      then obtain n where n: "xs = replicate n CHR ''Z''" ..
      then have "xs @ [x] = replicate (length (xs @ [x])) CHR ''Z''"
        using True by (simp add: replicate_append_same)
      with snoc.prems show False by simp
    qed
    with snoc.IH obtain p c k where "xs = p @ c # replicate k CHR ''Z''" "c \<noteq> CHR ''Z''"
      by blast
    with True have "xs @ [x] = p @ c # replicate (Suc k) CHR ''Z'' \<and> c \<noteq> CHR ''Z''"
      by (simp add: replicate_append_same)
    then show ?thesis by blast
  qed
qed

lemma wellformed_append [simp]: "wellformed (xs @ ys) \<longleftrightarrow> wellformed xs \<and> wellformed ys"
  by (simp add: wellformed_def)

lemma wellformed_Cons [simp]: "wellformed (c # cs) \<longleftrightarrow> c \<in> set ENCODING \<and> wellformed cs"
  by (simp add: wellformed_def)

lemma wellformed_Nil [simp]: "wellformed []"
  by (simp add: wellformed_def)

lemma wellformed_rev [simp]: "wellformed (rev s) = wellformed s"
  by (simp add: wellformed_def)

lemma wellformed_replicate_0 [simp]: "wellformed (replicate k CHR ''0'')"
  by (simp add: wellformed_def list_all_iff ENCODING_def)

lemma wellformed_iff: "wellformed s \<longleftrightarrow> set s \<subseteq> set ENCODING"
  by (auto simp: wellformed_def list_all_iff)

text \<open>The successor of a digit below the last one.\<close>

lemma next_digit:
  assumes "c \<in> set ENCODING" "c \<noteq> CHR ''Z''"
  shows "\<exists>d. str_index ENCODING (indexOf ENCODING [c] + 1) = [d] \<and> d \<in> set ENCODING \<and>
             indexOf ENCODING [d] = indexOf ENCODING [c] + 1"
proof -
  define i where "i = indexOf ENCODING [c]"
  have i: "0 \<le> i" "i < 32" "i \<noteq> 31"
    using assms indexOf_in [of c] indexOf_Z [of c] by (auto simp: i_def)
  then have n: "nat (i + 1) < 32"
    by linarith
  have "str_index ENCODING (i + 1) = [ENCODING ! nat (i + 1)]"
    using i by (simp add: str_index_def length_ENCODING)
  moreover have "ENCODING ! nat (i + 1) \<in> set ENCODING"
    using n by (simp add: length_ENCODING)
  moreover have "indexOf ENCODING [ENCODING ! nat (i + 1)] = i + 1"
    using indexOf_nth [OF n] i by simp
  ultimately show ?thesis
    unfolding i_def by blast
qed

subsection \<open>The value of a string\<close>

lemma foldl_shift:
  "foldl (\<lambda>sum c. sum * 32 + indexOf ENCODING [c]) a s =
   a * 32 ^ length s + foldl (\<lambda>sum c. sum * 32 + indexOf ENCODING [c]) 0 s"
proof (induction s arbitrary: a)
  case Nil
  then show ?case by simp
next
  case (Cons c cs)
  show ?case
    using Cons.IH [of "a * 32 + indexOf ENCODING [c]"] Cons.IH [of "indexOf ENCODING [c]"]
    by (simp add: algebra_simps)
qed

lemma decode_integer_Nil [simp]: "decode_integer [] = 0"
  by (simp add: decode_integer_def)

lemma decode_integer_Cons:
  "decode_integer (c # cs) = indexOf ENCODING [c] * 32 ^ length cs + decode_integer cs"
  using foldl_shift [of "indexOf ENCODING [c]" cs] by (simp add: decode_integer_def)

lemma decode_integer_append:
  "decode_integer (xs @ ys) = decode_integer xs * 32 ^ length ys + decode_integer ys"
  using foldl_shift [of "decode_integer xs" ys] by (simp add: decode_integer_def)

lemma decode_integer_bounds:
  "wellformed s \<Longrightarrow> 0 \<le> decode_integer s \<and> decode_integer s < 32 ^ length s"
proof (induction s)
  case Nil
  then show ?case by simp
next
  case (Cons c cs)
  then have i: "0 \<le> indexOf ENCODING [c]" "indexOf ENCODING [c] + 1 \<le> 32"
    using indexOf_in [of c] by auto
  from Cons have d: "0 \<le> decode_integer cs" "decode_integer cs < 32 ^ length cs"
    by auto
  define P :: int where "P = 32 ^ length cs"
  have "(indexOf ENCODING [c] + 1) * P \<le> 32 * P"
    using i(2) unfolding P_def by (intro mult_right_mono) auto
  moreover have "(indexOf ENCODING [c] + 1) * P = indexOf ENCODING [c] * P + P"
    by (simp add: algebra_simps)
  ultimately have "indexOf ENCODING [c] * P + decode_integer cs < 32 * P"
    using d(2) unfolding P_def by linarith
  moreover have "0 \<le> indexOf ENCODING [c] * P"
    using i(1) unfolding P_def by simp
  ultimately show ?case
    using d(1) by (simp add: decode_integer_Cons P_def)
qed

lemma decode_integer_replicate_0 [simp]: "decode_integer (replicate k CHR ''0'') = 0"
proof (induction k)
  case 0
  then show ?case by simp
next
  case (Suc k)
  have "indexOf ENCODING ''0'' = 0"
    by (simp add: indexOf_def ENCODING_def)
  with Suc show ?case
    by (simp add: decode_integer_Cons)
qed

lemma decode_integer_replicate_Z: "decode_integer (replicate k CHR ''Z'') = 32 ^ k - 1"
proof (induction k)
  case 0
  then show ?case by simp
next
  case (Suc k)
  have "indexOf ENCODING ''Z'' = 31"
    by (simp add: indexOf_Z)
  with Suc show ?case
    by (simp add: decode_integer_Cons)
qed

text \<open>Lexicographic order is numeric order on well-formed strings of one width.\<close>

lemma digit_less_iff:
  assumes "a \<in> set ENCODING" "b \<in> set ENCODING"
  shows "a < b \<longleftrightarrow> indexOf ENCODING [a] < indexOf ENCODING [b]"
proof -
  from assms obtain i j where ij: "i < 32" "ENCODING ! i = a" "j < 32" "ENCODING ! j = b"
    by (auto simp: in_set_conv_nth length_ENCODING)
  have "ENCODING ! i < ENCODING ! j \<longleftrightarrow> i < j"
  proof
    assume "i < j"
    then show "ENCODING ! i < ENCODING ! j"
      using ij(3) by (intro sorted_wrt_nth_less [OF strict_sorted_ENCODING]) (simp_all add: length_ENCODING)
  next
    assume l: "ENCODING ! i < ENCODING ! j"
    show "i < j"
    proof (rule ccontr)
      assume "\<not> i < j"
      then consider "i = j" | "j < i" by linarith
      then show False
      proof cases
        case 1
        with l show ?thesis by simp
      next
        case 2
        then have "ENCODING ! j < ENCODING ! i"
          using ij(1) by (intro sorted_wrt_nth_less [OF strict_sorted_ENCODING]) (simp_all add: length_ENCODING)
        with l show ?thesis by simp
      qed
    qed
  qed
  then show ?thesis
    using ij indexOf_nth [of i] indexOf_nth [of j] by simp
qed

lemma digit_eq_iff:
  assumes "a \<in> set ENCODING" "b \<in> set ENCODING"
  shows "a = b \<longleftrightarrow> indexOf ENCODING [a] = indexOf ENCODING [b]"
  using indexOf_in [OF assms(1)] indexOf_in [OF assms(2)] by metis

lemma less_iff_decode_integer:
  "length s = length t \<Longrightarrow> wellformed s \<Longrightarrow> wellformed t \<Longrightarrow>
   s < t \<longleftrightarrow> decode_integer s < decode_integer t"
proof (induction s t rule: list_induct2)
  case Nil
  then show ?case by simp
next
  case (Cons a x b y)
  then have wf: "a \<in> set ENCODING" "b \<in> set ENCODING" "wellformed x" "wellformed y"
    by auto
  define n where "n = length x"
  define i where "i = indexOf ENCODING [a]"
  define j where "j = indexOf ENCODING [b]"
  define u where "u = decode_integer x"
  define v where "v = decode_integer y"
  have bx: "0 \<le> u" "u < 32 ^ n"
    using decode_integer_bounds [OF wf(3)] by (auto simp: u_def n_def)
  have by': "0 \<le> v" "v < 32 ^ n"
    using decode_integer_bounds [OF wf(4)] Cons.hyps by (auto simp: v_def n_def)
  have IH: "x < y \<longleftrightarrow> u < v"
    using Cons.IH wf by (simp add: u_def v_def)
  have step: "k * 32 ^ n + w < m * 32 ^ n + z"
    if "k < m" "w < 32 ^ n" "0 \<le> z" for k m w z :: int
  proof -
    have "(k + 1) * 32 ^ n \<le> m * (32 :: int) ^ n"
      using that(1) by (intro mult_right_mono) auto
    moreover have "(k + 1) * 32 ^ n = k * 32 ^ n + (32 :: int) ^ n"
      by (simp add: algebra_simps)
    ultimately show ?thesis
      using that(2,3) by linarith
  qed
  have lt: "i * 32 ^ n + u < j * 32 ^ n + v" if "i < j"
    using step [OF that bx(2) by'(1)] .
  have gt: "\<not> i * 32 ^ n + u < j * 32 ^ n + v" if "j < i"
    using step [OF that by'(2) bx(1)] by simp
  have "a # x < b # y \<longleftrightarrow> i < j \<or> i = j \<and> u < v"
    using digit_less_iff [OF wf(1,2)] digit_eq_iff [OF wf(1,2)] IH
    by (simp add: i_def j_def)
  also have "\<dots> \<longleftrightarrow> i * 32 ^ n + u < j * 32 ^ n + v"
    using lt gt by (cases i j rule: linorder_cases) auto
  finally show ?case
    using Cons.hyps by (simp add: decode_integer_Cons i_def j_def u_def v_def n_def)
qed

lemma decode_integer_inj:
  assumes "length s = length t" "wellformed s" "wellformed t"
    "decode_integer s = decode_integer t"
  shows "s = t"
proof (rule ccontr)
  assume "s \<noteq> t"
  then consider "s < t" | "t < s" by (metis linorder_neqE)
  then show False
    using less_iff_decode_integer [OF assms(1-3)]
      less_iff_decode_integer [OF assms(1) [symmetric] assms(3,2)] assms(4)
    by cases auto
qed

section \<open>Incrementing: outcomes, order and injectivity\<close>

lemma incrementBase32_wellformed:
  assumes "wellformed s" "length s \<le> 16" "s \<noteq> replicate (length s) CHR ''Z''"
  shows "\<exists>s'. incrementBase32 s = Inr s' \<and> length s' = length s \<and> wellformed s' \<and>
              decode_integer s' = decode_integer s + 1"
proof -
  from split_trailing_Z [OF assms(3)] obtain p c k
    where s: "s = p @ c # replicate k CHR ''Z''" and c: "c \<noteq> CHR ''Z''"
    by blast
  from assms(1) s have wf: "wellformed p" "c \<in> set ENCODING"
    by auto
  from next_digit [OF wf(2) c] obtain d
    where d: "str_index ENCODING (indexOf ENCODING [c] + 1) = [d]" "d \<in> set ENCODING"
      "indexOf ENCODING [d] = indexOf ENCODING [c] + 1"
    by blast
  define s' where "s' = p @ d # replicate k CHR ''0''"
  have "incrementBase32 s = Inr s'"
    using incrementBase32_ok [of p c k] assms(2) wf(2) c d(1) unfolding s s'_def by simp
  moreover have "length s' = length s"
    by (simp add: s s'_def)
  moreover have "wellformed s'"
    using wf(1) d(2) by (simp add: s'_def)
  moreover have "decode_integer s' = decode_integer s + 1"
    unfolding s s'_def
    by (simp add: decode_integer_append decode_integer_Cons decode_integer_replicate_Z d(3)
        algebra_simps)
  ultimately show ?thesis by blast
qed

lemma incrementBase32_maximum:
  "incrementBase32 (replicate 16 CHR ''Z'') = Inl IncrementMaximum"
  by (simp add: incrementBase32_def RANDOM_LEN_def)

lemma incrementBase32_too_long:
  "length s > 16 \<Longrightarrow> incrementBase32 s = Inl IncrementTooLong"
  by (simp add: incrementBase32_def RANDOM_LEN_def)

lemma incrementBase32_Inl_cases:
  "incrementBase32 s = Inl e \<Longrightarrow>
   e = IncrementTooLong \<and> length s > 16 \<or>
   e = IncrementMaximum \<and> s = replicate 16 CHR ''Z'' \<or>
   e = IncorrectlyEncoded \<and> length s \<le> 16 \<and> s \<noteq> replicate 16 CHR ''Z''"
proof -
  assume a: "incrementBase32 s = Inl e"
  consider "length s > 16" | "s = replicate 16 CHR ''Z''"
    | "length s \<le> 16" "s \<noteq> replicate 16 CHR ''Z''" "s = replicate (length s) CHR ''Z''"
    | "length s \<le> 16" "s \<noteq> replicate (length s) CHR ''Z''"
    by fastforce
  then show ?thesis
  proof cases
    case 1
    with a show ?thesis by (simp add: incrementBase32_too_long)
  next
    case 2
    with a show ?thesis by (simp add: incrementBase32_maximum)
  next
    case 3
    then have "length s < 16"
      by (metis le_neq_implies_less)
    with 3(3) have "incrementBase32 s = Inl IncorrectlyEncoded"
      using incrementBase32_short_max [of "length s"] by simp
    with a 3 show ?thesis by simp
  next
    case 4
    from split_trailing_Z [OF 4(2)] obtain p c k
      where s: "s = p @ c # replicate k CHR ''Z''" and c: "c \<noteq> CHR ''Z''"
      by blast
    have z: "s \<noteq> replicate 16 CHR ''Z''"
      using 4(2) by (metis length_replicate)
    show ?thesis
    proof (cases "c \<in> set ENCODING")
      case True
      with a show ?thesis
        using incrementBase32_ok [of p c k] 4(1) c unfolding s by simp
    next
      case False
      with a show ?thesis
        using incrementBase32_bad [of p c k] 4(1) z unfolding s by simp
    qed
  qed
qed

text \<open>
  Claim C5. On well-formed strings of one width (at most 16 characters) that are below
  the maximum of that width, \<open>incrementBase32\<close> succeeds, preserves the order, both
  the lexicographic order of the strings and the order of their values, and is
  injective; on the string of 16 \<open>Z\<close> it fails with \<open>IncrementMaximum\<close> (the
  specification's OverflowError).
\<close>

theorem incrementBase32_injective_monotone:
  assumes "wellformed s" "wellformed t" "length s = length t" "length s \<le> 16"
    and "s \<noteq> replicate (length s) CHR ''Z''" "t \<noteq> replicate (length t) CHR ''Z''"
  shows "(\<exists>s' t'. incrementBase32 s = Inr s' \<and> incrementBase32 t = Inr t' \<and>
           (s < t \<longrightarrow> s' < t') \<and>
           (decode_integer s < decode_integer t \<longrightarrow> decode_integer s' < decode_integer t') \<and>
           (s' = t' \<longrightarrow> s = t)) \<and>
         incrementBase32 (replicate 16 CHR ''Z'') = Inl IncrementMaximum"
proof -
  from incrementBase32_wellformed [OF assms(1,4,5)] obtain s'
    where s': "incrementBase32 s = Inr s'" "length s' = length s" "wellformed s'"
      "decode_integer s' = decode_integer s + 1"
    by blast
  from incrementBase32_wellformed [OF assms(2) _ assms(6)] assms(3,4) obtain t'
    where t': "incrementBase32 t = Inr t'" "length t' = length t" "wellformed t'"
      "decode_integer t' = decode_integer t + 1"
    by auto
  have len: "length s' = length t'"
    using s'(2) t'(2) assms(3) by simp
  have "s < t \<longrightarrow> s' < t'"
    using less_iff_decode_integer [OF assms(3,1,2)] less_iff_decode_integer [OF len s'(3) t'(3)]
      s'(4) t'(4) by simp
  moreover have "decode_integer s < decode_integer t \<longrightarrow> decode_integer s' < decode_integer t'"
    using s'(4) t'(4) by simp
  moreover have "s' = t' \<longrightarrow> s = t"
    using decode_integer_inj [OF assms(3,1,2)] s'(4) t'(4) by auto
  ultimately have "\<exists>s' t'. incrementBase32 s = Inr s' \<and> incrementBase32 t = Inr t' \<and>
           (s < t \<longrightarrow> s' < t') \<and>
           (decode_integer s < decode_integer t \<longrightarrow> decode_integer s' < decode_integer t') \<and>
           (s' = t' \<longrightarrow> s = t)"
    using s'(1) t'(1) by blast
  then show ?thesis
    using incrementBase32_maximum by blast
qed

theorem incrementBase32_injective_monotone_witness:
  "wellformed ''0000000000000009'' \<and> wellformed ''000000000000000Z'' \<and>
   length ''0000000000000009'' = length ''000000000000000Z'' \<and>
   length ''0000000000000009'' \<le> 16 \<and>
   ''0000000000000009'' \<noteq> replicate (length ''0000000000000009'') CHR ''Z'' \<and>
   ''000000000000000Z'' \<noteq> replicate (length ''000000000000000Z'') CHR ''Z'' \<and>
   ''0000000000000009'' < ''000000000000000Z'' \<and>
   (\<exists>s' t'. incrementBase32 ''0000000000000009'' = Inr s' \<and>
            incrementBase32 ''000000000000000Z'' = Inr t' \<and> s' < t')"
proof -
  have h: "wellformed ''0000000000000009''" "wellformed ''000000000000000Z''"
    "length ''0000000000000009'' = length ''000000000000000Z''"
    "length ''0000000000000009'' \<le> 16"
    "''0000000000000009'' \<noteq> replicate (length ''0000000000000009'') CHR ''Z''"
    "''000000000000000Z'' \<noteq> replicate (length ''000000000000000Z'') CHR ''Z''"
    by (simp_all add: wellformed_def ENCODING_def)
  have l: "''0000000000000009'' < ''000000000000000Z''"
    by simp
  show ?thesis
    using h l incrementBase32_injective_monotone [OF h] by blast
qed

text \<open>
  Claim C6 does not hold as stated: a character outside the alphabet does not always
  make \<open>incrementBase32\<close> fail. The loop reads the string from its end and stops at
  the first character that is not \<open>Z\<close>; the characters before it are never looked
  at. Here \<open>I\<close> is not in the alphabet, and the call succeeds.
\<close>

theorem incrementBase32_unread_prefix_counterexample:
  "CHR ''I'' \<in> set ''I000000000000000'' \<and> CHR ''I'' \<notin> set ENCODING \<and>
   incrementBase32 ''I000000000000000'' = Inr ''I000000000000001''"
  by (simp add: ENCODING_def) code_simp

text \<open>
  Claim C6, amended. \<open>incrementBase32\<close> fails with \<open>IncrementTooLong\<close> (the
  specification's LengthError) exactly when the string is longer than 16 characters,
  and with \<open>IncrementMaximum\<close> (OverflowError) exactly when it is the string of 16
  \<open>Z\<close>. A string of at most 16 characters with a character other than \<open>Z\<close> is
  decided by the last such character \<open>c\<close> alone: when \<open>c\<close> is in the alphabet the
  call succeeds, and returns the string with \<open>c\<close> replaced by the next symbol and
  every \<open>Z\<close> after it by \<open>0\<close>, whatever stands before \<open>c\<close>; when \<open>c\<close> is not in
  the alphabet the call fails with \<open>IncorrectlyEncoded\<close> (DecodeError).
\<close>

theorem incrementBase32_outcomes:
  "(incrementBase32 s = Inl IncrementTooLong \<longleftrightarrow> length s > 16) \<and>
   (incrementBase32 s = Inl IncrementMaximum \<longleftrightarrow> s = replicate 16 CHR ''Z'') \<and>
   (length (p @ c # replicate k CHR ''Z'') \<le> 16 \<and> c \<noteq> CHR ''Z'' \<and> c \<in> set ENCODING \<longrightarrow>
      incrementBase32 (p @ c # replicate k CHR ''Z'') =
        Inr (p @ str_index ENCODING (indexOf ENCODING [c] + 1) @ replicate k CHR ''0'')) \<and>
   (length (p @ c # replicate k CHR ''Z'') \<le> 16 \<and> c \<notin> set ENCODING \<longrightarrow>
      incrementBase32 (p @ c # replicate k CHR ''Z'') = Inl IncorrectlyEncoded)"
proof -
  have "incrementBase32 s = Inl IncrementTooLong \<longleftrightarrow> length s > 16"
    using incrementBase32_Inl_cases [of s IncrementTooLong] incrementBase32_too_long [of s]
    by auto
  moreover have "incrementBase32 s = Inl IncrementMaximum \<longleftrightarrow> s = replicate 16 CHR ''Z''"
    using incrementBase32_Inl_cases [of s IncrementMaximum] incrementBase32_maximum
    by auto
  ultimately show ?thesis
    using incrementBase32_ok [of p c k] incrementBase32_bad [of p c k] by blast
qed

theorem incrementBase32_outcomes_witness:
  "length ''00000000000000000'' > 16 \<and>
   incrementBase32 ''00000000000000000'' = Inl IncrementTooLong \<and>
   (length (''I0000000000009'' @ CHR ''A'' # replicate 1 CHR ''Z'') \<le> 16 \<and>
      CHR ''A'' \<noteq> CHR ''Z'' \<and> CHR ''A'' \<in> set ENCODING) \<and>
   incrementBase32 (''I0000000000009'' @ CHR ''A'' # replicate 1 CHR ''Z'') =
      Inr (''I0000000000009'' @ str_index ENCODING (indexOf ENCODING ''A'' + 1) @ replicate 1 CHR ''0'') \<and>
   (length (''0'' @ CHR ''I'' # replicate 1 CHR ''Z'') \<le> 16 \<and> CHR ''I'' \<notin> set ENCODING) \<and>
   incrementBase32 (''0'' @ CHR ''I'' # replicate 1 CHR ''Z'') = Inl IncorrectlyEncoded"
proof -
  have a: "length ''00000000000000000'' > 16"
    by simp
  have b: "length (''I0000000000009'' @ CHR ''A'' # replicate 1 CHR ''Z'') \<le> 16 \<and>
      CHR ''A'' \<noteq> CHR ''Z'' \<and> CHR ''A'' \<in> set ENCODING"
    by (simp add: ENCODING_def)
  have c: "length (''0'' @ CHR ''I'' # replicate 1 CHR ''Z'') \<le> 16 \<and> CHR ''I'' \<notin> set ENCODING"
    by (simp add: ENCODING_def)
  show ?thesis
    using a b c
      incrementBase32_outcomes [of "''00000000000000000''" "''I0000000000009''" "CHR ''A''" 1]
      incrementBase32_outcomes [of "''00000000000000000''" "''0''" "CHR ''I''" 1]
    by blast
qed

section \<open>Encoding and decoding the timestamp\<close>

subsection \<open>Encoding\<close>

lemma charAt_ENCODING:
  "0 \<le> i \<Longrightarrow> i < 32 \<Longrightarrow> charAt ENCODING i = [ENCODING ! nat i]"
  by (simp add: charAt_def length_ENCODING)

lemma encodeTime_loop_acc:
  "encodeTime_loop n t str = encodeTime_loop n t [] @ str"
proof (induction n arbitrary: t str)
  case 0
  then show ?case by simp
next
  case (Suc n)
  show ?case
    using Suc.IH [of "(t - t mod ENCODING_LEN) div ENCODING_LEN" "charAt ENCODING (t mod ENCODING_LEN) @ str"]
      Suc.IH [of "(t - t mod ENCODING_LEN) div ENCODING_LEN" "charAt ENCODING (t mod ENCODING_LEN) @ []"]
    by (simp add: Let_def)
qed

lemma encodeTime_loop_Suc:
  "encodeTime_loop (Suc n) t [] = encodeTime_loop n (t div 32) [] @ [ENCODING ! nat (t mod 32)]"
proof -
  have m: "0 \<le> t mod 32" "t mod 32 < 32"
    by simp_all
  have d: "(t - t mod 32) div 32 = t div 32"
    by (simp add: minus_mod_eq_mult_div)
  show ?thesis
    using encodeTime_loop_acc [of n "t div 32" "[ENCODING ! nat (t mod 32)]"]
    by (simp add: Let_def ENCODING_LEN_eq charAt_ENCODING [OF m] d)
qed

lemma length_encodeTime_loop: "length (encodeTime_loop n t []) = n"
  by (induction n arbitrary: t) (simp_all add: encodeTime_loop_Suc del: encodeTime_loop.simps(2))

lemma wellformed_encodeTime_loop: "wellformed (encodeTime_loop n t [])"
proof (induction n arbitrary: t)
  case 0
  then show ?case by simp
next
  case (Suc n)
  have "nat (t mod 32) < length ENCODING"
    by (simp add: length_ENCODING nat_less_iff)
  then have "ENCODING ! nat (t mod 32) \<in> set ENCODING"
    by (rule nth_mem)
  with Suc show ?case
    by (simp add: encodeTime_loop_Suc del: encodeTime_loop.simps(2))
qed

lemma decode_integer_encodeTime_loop:
  "decode_integer (encodeTime_loop n t []) = t mod 32 ^ n"
proof (induction n arbitrary: t)
  case 0
  then show ?case by simp
next
  case (Suc n)
  have n: "nat (t mod 32) < 32"
    by (simp add: nat_less_iff)
  have i: "indexOf ENCODING [ENCODING ! nat (t mod 32)] = t mod 32"
    using indexOf_nth [OF n] by simp
  have "t mod 32 ^ Suc n = 32 * (t div 32 mod 32 ^ n) + t mod 32"
    using zmod_zmult2_eq [of "32 ^ n" t 32] by simp
  with Suc [of "t div 32"] i show ?case
    by (simp add: encodeTime_loop_Suc decode_integer_append decode_integer_Cons
        del: encodeTime_loop.simps(2))
qed

lemma encodeTime_valid:
  assumes "0 \<le> t" "t \<le> TIME_MAX"
  shows "encodeTime (Finite (of_int t)) n = Inr (encodeTime_loop n t [])"
  using validateTimestamp_of_int [OF assms] by (simp add: encodeTime_def int_of_number_def)

subsection \<open>Decoding\<close>

lemma decodeTime_reduce_wellformed:
  "wellformed cs \<Longrightarrow>
   decodeTime_reduce carry index cs = Inr (carry + 32 ^ index * decode_integer (rev cs))"
proof (induction cs arbitrary: carry index)
  case Nil
  then show ?case by simp
next
  case (Cons c cs)
  then have "indexOf ENCODING [c] \<noteq> - 1"
    using indexOf_in [of c] by auto
  with Cons show ?case
    by (simp add: Let_def ENCODING_LEN_eq decode_integer_append decode_integer_Cons algebra_simps)
qed

lemma decodeTime_reduce_invalid:
  "\<not> wellformed cs \<Longrightarrow>
   \<exists>c. c \<in> set cs \<and> c \<notin> set ENCODING \<and>
       decodeTime_reduce carry index cs = Inl (TimeDecodeInvalidChar [c])"
proof (induction cs arbitrary: carry index)
  case Nil
  then show ?case by simp
next
  case (Cons c cs)
  show ?case
  proof (cases "c \<in> set ENCODING")
    case False
    then show ?thesis
      by (auto simp: indexOf_notin)
  next
    case True
    then have "indexOf ENCODING [c] \<noteq> - 1"
      using indexOf_in [of c] by auto
    moreover from True Cons.prems have "\<not> wellformed cs"
      by simp
    ultimately show ?thesis
      using Cons.IH [of "carry + indexOf ENCODING [c] * ENCODING_LEN ^ index" "Suc index"]
      by (auto simp: Let_def)
  qed
qed

lemma substr_take: "substr s 0 (Some (int n)) = take n s"
  by (auto simp: substr_def Let_def min_def)

lemma decodeTime_eq:
  "decodeTime ulid =
     (if length ulid \<noteq> 26 then Inl MalformedULID
      else case decodeTime_reduce 0 0 (rev (take 10 ulid)) of
             Inl e \<Rightarrow> Inl e
           | Inr time \<Rightarrow> if time > 2 ^ 48 - 1 then Inl (DecodedTimeTooLarge time) else Inr time)"
  unfolding decodeTime_def TIME_LEN_def RANDOM_LEN_def TIME_MAX_def
  using substr_take [of ulid 10] by simp

lemma decodeTime_wellformed:
  assumes "length ulid = 26" "wellformed (take 10 ulid)"
  shows "decodeTime ulid =
     (if decode_integer (take 10 ulid) > 2 ^ 48 - 1
      then Inl (DecodedTimeTooLarge (decode_integer (take 10 ulid)))
      else Inr (decode_integer (take 10 ulid)))"
  using assms decodeTime_reduce_wellformed [of "rev (take 10 ulid)" 0 0]
  by (simp add: decodeTime_eq)

lemma decodeTime_invalid:
  assumes "length ulid = 26" "\<not> wellformed (take 10 ulid)"
  shows "\<exists>c. c \<in> set (take 10 ulid) \<and> c \<notin> set ENCODING \<and>
             decodeTime ulid = Inl (TimeDecodeInvalidChar [c])"
proof -
  from assms(2) have "\<not> wellformed (rev (take 10 ulid))"
    by simp
  from decodeTime_reduce_invalid [OF this, of 0 0] assms(1) show ?thesis
    by (auto simp: decodeTime_eq)
qed

section \<open>Properties of the codec and the time decoder\<close>

text \<open>
  Claim C4. For every integer \<open>t\<close> from 0 to \<open>2^48 - 1\<close>, \<open>encodeTime\<close> with width
  10 returns a string of 10 characters, and decoding it gives \<open>t\<close> back, both with the
  \<^verbatim>\<open>reduce\<close> of \<open>decodeTime\<close> over the reversed string and with the accumulation
  that reads the most significant digit first.
\<close>

theorem decode_encodeTime:
  assumes "0 \<le> t" "t \<le> 2 ^ 48 - 1"
  shows "\<exists>s. encodeTime (Finite (of_int t)) TIME_LEN = Inr s \<and> length s = 10 \<and>
             decodeTime_reduce 0 0 (rev s) = Inr t \<and> decode_integer s = t"
proof -
  define s where "s = encodeTime_loop 10 t []"
  have "t < 32 ^ 10"
    using assms(2) by simp
  with assms(1) have v: "decode_integer s = t"
    by (simp add: s_def decode_integer_encodeTime_loop)
  have wf: "wellformed (rev s)"
    by (simp add: s_def wellformed_encodeTime_loop)
  have "encodeTime (Finite (of_int t)) TIME_LEN = Inr s"
    using assms by (simp add: encodeTime_valid TIME_MAX_def TIME_LEN_def s_def)
  moreover have "length s = 10"
    by (simp add: s_def length_encodeTime_loop)
  moreover have "decodeTime_reduce 0 0 (rev s) = Inr t"
    using decodeTime_reduce_wellformed [OF wf, of 0 0] v by simp
  ultimately show ?thesis
    using v by blast
qed

theorem decode_encodeTime_witness:
  "(0 :: int) \<le> 1469918176385 \<and> (1469918176385 :: int) \<le> 2 ^ 48 - 1 \<and>
   (\<exists>s. encodeTime (Finite (of_int 1469918176385)) TIME_LEN = Inr s \<and> length s = 10 \<and>
        decodeTime_reduce 0 0 (rev s) = Inr 1469918176385 \<and> decode_integer s = 1469918176385)"
proof -
  have h: "(0 :: int) \<le> 1469918176385" "(1469918176385 :: int) \<le> 2 ^ 48 - 1"
    by simp_all
  show ?thesis
    using h decode_encodeTime [OF h] by blast
qed

text \<open>
  Claim C7. \<open>decodeTime\<close> fails with \<open>MalformedULID\<close> (the specification's
  FormatError) whenever the string is not 26 characters long; otherwise with
  \<open>TimeDecodeInvalidChar\<close> (DecodeError), naming a character that is not in the
  alphabet, whenever there is one among the first 10; otherwise with
  \<open>DecodedTimeTooLarge\<close> (RangeError) whenever the value of the first 10 characters
  is above \<open>2^48 - 1\<close>; otherwise it returns that value. The two examples of the
  specification decode to 1469918176385 and 281474976710655.
\<close>

theorem decodeTime_outcomes:
  "(length ulid \<noteq> 26 \<longrightarrow> decodeTime ulid = Inl MalformedULID) \<and>
   (length ulid = 26 \<and> \<not> wellformed (take 10 ulid) \<longrightarrow>
      (\<exists>c. c \<in> set (take 10 ulid) \<and> c \<notin> set ENCODING \<and>
           decodeTime ulid = Inl (TimeDecodeInvalidChar [c]))) \<and>
   (length ulid = 26 \<and> wellformed (take 10 ulid) \<and> decode_integer (take 10 ulid) > 2 ^ 48 - 1 \<longrightarrow>
      decodeTime ulid = Inl (DecodedTimeTooLarge (decode_integer (take 10 ulid)))) \<and>
   (length ulid = 26 \<and> wellformed (take 10 ulid) \<and> decode_integer (take 10 ulid) \<le> 2 ^ 48 - 1 \<longrightarrow>
      decodeTime ulid = Inr (decode_integer (take 10 ulid))) \<and>
   decodeTime ''01ARYZ6S41TSV4RRFFQ69G5FAV'' = Inr 1469918176385 \<and>
   decodeTime ''7ZZZZZZZZZZZZZZZZZZZZZZZZZ'' = Inr 281474976710655"
proof -
  have a: "length ulid \<noteq> 26 \<longrightarrow> decodeTime ulid = Inl MalformedULID"
    by (simp add: decodeTime_eq)
  have b: "decodeTime ''01ARYZ6S41TSV4RRFFQ69G5FAV'' = Inr 1469918176385"
    by code_simp
  have c: "decodeTime ''7ZZZZZZZZZZZZZZZZZZZZZZZZZ'' = Inr 281474976710655"
    by code_simp
  show ?thesis
    using a b c decodeTime_invalid [of ulid] decodeTime_wellformed [of ulid]
    by simp
qed

theorem decodeTime_outcomes_witness:
  "length ''FFFF'' \<noteq> 26 \<and> decodeTime ''FFFF'' = Inl MalformedULID \<and>
   (length ''01ARYZ6S4uTSV4RRFFQ69G5FAV'' = 26 \<and> \<not> wellformed (take 10 ''01ARYZ6S4uTSV4RRFFQ69G5FAV'')) \<and>
   (\<exists>c. c \<in> set (take 10 ''01ARYZ6S4uTSV4RRFFQ69G5FAV'') \<and> c \<notin> set ENCODING \<and>
        decodeTime ''01ARYZ6S4uTSV4RRFFQ69G5FAV'' = Inl (TimeDecodeInvalidChar [c])) \<and>
   (length ''80000000000000000000000000'' = 26 \<and> wellformed (take 10 ''80000000000000000000000000'') \<and>
      decode_integer (take 10 ''80000000000000000000000000'') > 2 ^ 48 - 1) \<and>
   decodeTime ''80000000000000000000000000'' =
      Inl (DecodedTimeTooLarge (decode_integer (take 10 ''80000000000000000000000000''))) \<and>
   (length ''01ARYZ6S41TSV4RRFFQ69G5FAV'' = 26 \<and> wellformed (take 10 ''01ARYZ6S41TSV4RRFFQ69G5FAV'') \<and>
      decode_integer (take 10 ''01ARYZ6S41TSV4RRFFQ69G5FAV'') \<le> 2 ^ 48 - 1) \<and>
   decodeTime ''01ARYZ6S41TSV4RRFFQ69G5FAV'' = Inr (decode_integer (take 10 ''01ARYZ6S41TSV4RRFFQ69G5FAV''))"
proof -
  have a: "length ''FFFF'' \<noteq> 26"
    by simp
  have b: "length ''01ARYZ6S4uTSV4RRFFQ69G5FAV'' = 26 \<and> \<not> wellformed (take 10 ''01ARYZ6S4uTSV4RRFFQ69G5FAV'')"
    by (simp add: wellformed_def ENCODING_def)
  have c: "length ''80000000000000000000000000'' = 26 \<and> wellformed (take 10 ''80000000000000000000000000'') \<and>
      decode_integer (take 10 ''80000000000000000000000000'') > 2 ^ 48 - 1"
    by code_simp
  have d: "length ''01ARYZ6S41TSV4RRFFQ69G5FAV'' = 26 \<and> wellformed (take 10 ''01ARYZ6S41TSV4RRFFQ69G5FAV'') \<and>
      decode_integer (take 10 ''01ARYZ6S41TSV4RRFFQ69G5FAV'') \<le> 2 ^ 48 - 1"
    by code_simp
  note a' = decodeTime_outcomes [of "''FFFF''", THEN conjunct1, THEN mp, OF a]
  note b' = decodeTime_outcomes [of "''01ARYZ6S4uTSV4RRFFQ69G5FAV''",
      THEN conjunct2, THEN conjunct1, THEN mp, OF b]
  note c' = decodeTime_outcomes [of "''80000000000000000000000000''",
      THEN conjunct2, THEN conjunct2, THEN conjunct1, THEN mp, OF c]
  note d' = decodeTime_outcomes [of "''01ARYZ6S41TSV4RRFFQ69G5FAV''",
      THEN conjunct2, THEN conjunct2, THEN conjunct2, THEN conjunct1, THEN mp, OF d]
  show ?thesis
    by (rule conjI [OF a conjI [OF a' conjI [OF b conjI [OF b' conjI [OF c conjI [OF c' conjI [OF d d']]]]]]])
qed

text \<open>
  Claim C10. \<open>decodeTime\<close> never reads the last 16 characters: two strings of 26
  characters with the same first 10 give the same result, value or error, whatever the
  other 16 are; and when the first 10 are alphabet symbols whose value is at most
  \<open>2^48 - 1\<close>, that value is returned, also when the last 16 characters are outside
  the alphabet.
\<close>

theorem decodeTime_ignores_random:
  assumes "length p = 10" "length r = 16" "length r' = 16"
  shows "decodeTime (p @ r) = decodeTime (p @ r') \<and>
         (wellformed p \<and> decode_integer p \<le> 2 ^ 48 - 1 \<longrightarrow>
            decodeTime (p @ r) = Inr (decode_integer p))"
proof -
  have "decodeTime (p @ r) = decodeTime (p @ r')"
    using assms by (simp add: decodeTime_eq)
  moreover have "decodeTime (p @ r) = Inr (decode_integer p)"
    if "wellformed p" "decode_integer p \<le> 2 ^ 48 - 1"
    using decodeTime_wellformed [of "p @ r"] assms that by simp
  ultimately show ?thesis
    by blast
qed

theorem decodeTime_ignores_random_witness:
  "length ''01ARYZ6S41'' = 10 \<and> length ''!!!!!!!!!!!!!!!!'' = 16 \<and> length ''TSV4RRFFQ69G5FAV'' = 16 \<and>
   wellformed ''01ARYZ6S41'' \<and> decode_integer ''01ARYZ6S41'' \<le> 2 ^ 48 - 1 \<and>
   \<not> wellformed ''!!!!!!!!!!!!!!!!'' \<and>
   decodeTime (''01ARYZ6S41'' @ ''!!!!!!!!!!!!!!!!'') = decodeTime (''01ARYZ6S41'' @ ''TSV4RRFFQ69G5FAV'') \<and>
   decodeTime (''01ARYZ6S41'' @ ''!!!!!!!!!!!!!!!!'') = Inr (decode_integer ''01ARYZ6S41'')"
proof -
  have h: "length ''01ARYZ6S41'' = 10" "length ''!!!!!!!!!!!!!!!!'' = 16" "length ''TSV4RRFFQ69G5FAV'' = 16"
    by simp_all
  have w: "wellformed ''01ARYZ6S41'' \<and> decode_integer ''01ARYZ6S41'' \<le> 2 ^ 48 - 1"
    by code_simp
  have n: "\<not> wellformed ''!!!!!!!!!!!!!!!!''"
    by (simp add: wellformed_def ENCODING_def)
  show ?thesis
    using h w n decodeTime_ignores_random [OF h] by blast
qed

section \<open>Lemmas about the generators\<close>

subsection \<open>What the random source can produce\<close>

lemma randomChar_digit: "\<exists>c. fst (randomChar g) = [c] \<and> c \<in> set ENCODING"
proof -
  define n where "n = unat (g 0)"
  define x :: rat where "x = of_nat n / 255"
  define rand where "rand = \<lfloor>x * 32\<rfloor>"
  have "n < 2 ^ 8"
    unfolding n_def using unsigned_less [of "g 0", where ?'a = nat] by simp
  then have n: "n \<le> 255"
    by simp
  have x: "0 \<le> x" "x \<le> 1"
    using n by (simp_all add: x_def)
  then have "0 \<le> x * 32" "x * 32 \<le> 32"
    by simp_all
  then have r: "0 \<le> rand" "rand \<le> 32"
    unfolding rand_def by (simp_all add: floor_le_iff le_floor_iff)
  define rand' where "rand' = (if rand = 32 then 31 else rand)"
  have r': "0 \<le> rand'" "rand' < 32"
    using r by (auto simp: rand'_def)
  have "fst (randomChar g) = charAt ENCODING rand'"
    by (simp add: randomChar_def webCryptoPRNG_def Let_def ENCODING_LEN_eq rand'_def rand_def
        x_def n_def)
  also have "\<dots> = [ENCODING ! nat rand']"
    using r' by (rule charAt_ENCODING)
  finally have "fst (randomChar g) = [ENCODING ! nat rand']" .
  moreover have "ENCODING ! nat rand' \<in> set ENCODING"
    using r' by (intro nth_mem) (simp add: length_ENCODING)
  ultimately show ?thesis
    by blast
qed

lemma encodeRandom_loop_shape:
  "\<exists>r. fst (encodeRandom_loop len str g) = r @ str \<and> length r = len \<and> wellformed r"
proof (induction len arbitrary: str g)
  case 0
  then show ?case by simp
next
  case (Suc len)
  from randomChar_digit [of g] obtain c where c: "fst (randomChar g) = [c]" "c \<in> set ENCODING"
    by blast
  from Suc [of "[c] @ str" "snd (randomChar g)"] obtain r
    where r: "fst (encodeRandom_loop len ([c] @ str) (snd (randomChar g))) = r @ [c] @ str"
      "length r = len" "wellformed r"
    by auto
  have "fst (encodeRandom_loop (Suc len) str g) = (r @ [c]) @ str"
    using c(1) r(1) by (simp add: case_prod_unfold)
  moreover have "length (r @ [c]) = Suc len" "wellformed (r @ [c])"
    using r(2,3) c(2) by simp_all
  ultimately show ?case
    by blast
qed

lemma encodeRandom_shape:
  "length (fst (encodeRandom len g)) = len \<and> wellformed (fst (encodeRandom len g))"
  using encodeRandom_loop_shape [of len "[]" g] by (auto simp: encodeRandom_def)

subsection \<open>Lexicographic order and concatenation\<close>

lemma less_append_same: "x < y \<Longrightarrow> a @ x < a @ (y :: string)"
  by (induction a) simp_all

lemma less_append_prefix:
  "length a = length b \<Longrightarrow> a < b \<Longrightarrow> a @ x < b @ (y :: string)"
  by (induction a b rule: list_induct2) auto

lemma encodeTime_loop_less:
  assumes "0 \<le> s" "s < t" "t < 32 ^ n"
  shows "encodeTime_loop n s [] < encodeTime_loop n t []"
proof -
  have "decode_integer (encodeTime_loop n s []) = s" "decode_integer (encodeTime_loop n t []) = t"
    using assms by (simp_all add: decode_integer_encodeTime_loop)
  then show ?thesis
    using less_iff_decode_integer [of "encodeTime_loop n s []" "encodeTime_loop n t []"] assms(2)
    by (simp add: length_encodeTime_loop wellformed_encodeTime_loop)
qed

subsection \<open>One call of the monotonic generator\<close>

lemma ulid_monotonic_invalid:
  "validateTimestamp (timestampOrNow timestamp now) = Inl e \<Longrightarrow>
   ulid_monotonic st g now timestamp = (Inl e, st)"
  by (simp add: ulid_monotonic_def)

lemma ulid_monotonic_forward:
  assumes "timestampOrNow timestamp now = Finite (of_int t)" "0 \<le> t" "t \<le> TIME_MAX"
    and "t > lastTime st"
  shows "ulid_monotonic st g now timestamp =
           (Inr (encodeTime_loop 10 t [] @ fst (encodeRandom 16 g)),
            \<lparr>lastTime = t, lastRandom = Some (fst (encodeRandom 16 g))\<rparr>)"
  using assms validateTimestamp_of_int [OF assms(2,3)] encodeTime_valid [OF assms(2,3), of 10]
  by (simp add: ulid_monotonic_def int_of_number_def Let_def TIME_LEN_def RANDOM_LEN_def)

lemma ulid_monotonic_stalled:
  assumes "timestampOrNow timestamp now = Finite (of_int t)" "0 \<le> t" "t \<le> TIME_MAX"
    and "t \<le> lastTime st" "lastTime st \<le> TIME_MAX"
  shows "ulid_monotonic st g now timestamp =
           (case lastRandom st of
              None \<Rightarrow> (Inl UndefinedProperty, st)
            | Some lr \<Rightarrow>
                (case incrementBase32 lr of
                   Inl e \<Rightarrow> (Inl e, st)
                 | Inr random \<Rightarrow>
                     (Inr (encodeTime_loop 10 (lastTime st) [] @ random),
                      st\<lparr>lastRandom := Some random\<rparr>)))"
proof -
  have "0 \<le> lastTime st"
    using assms(2,4) by simp
  from encodeTime_valid [OF this assms(5), of 10] assms(1,4) validateTimestamp_of_int [OF assms(2,3)]
  show ?thesis
    by (simp add: ulid_monotonic_def int_of_number_def Let_def TIME_LEN_def
        split: option.split sum.split)
qed

lemma incrementBase32_random:
  assumes "length lr = 16" "wellformed lr" "incrementBase32 lr = Inr r'"
  shows "length r' = 16 \<and> wellformed r' \<and> lr < r'"
proof -
  have "lr \<noteq> replicate (length lr) CHR ''Z''"
    using assms(1,3) incrementBase32_maximum by auto
  from incrementBase32_wellformed [OF assms(2) _ this] assms(1,3)
  have r': "length r' = length lr" "wellformed r'" "decode_integer r' = decode_integer lr + 1"
    by auto
  then have "lr < r'"
    using less_iff_decode_integer [of lr r'] assms(2) by simp
  with r' assms(1) show ?thesis
    by simp
qed

text \<open>
  What one call does to a state that satisfies \<open>state_ok\<close>: the state after the call
  satisfies it again, a failed call leaves the state as it was, and an emitted ULID is
  the encoded \<open>lastTime\<close> followed by \<open>lastRandom\<close> of the new state and is greater
  than the same string built from the old state.
\<close>

lemma ulid_monotonic_step:
  assumes ok: "state_ok st" and call: "ulid_monotonic st g now timestamp = (res, st')"
  shows "state_ok st' \<and>
         (\<forall>e. res = Inl e \<longrightarrow> st' = st) \<and>
         (\<forall>ulid. res = Inr ulid \<longrightarrow>
            (\<exists>r'. lastRandom st' = Some r' \<and> ulid = encodeTime_loop 10 (lastTime st') [] @ r' \<and>
                  (\<forall>r. lastRandom st = Some r \<longrightarrow>
                        encodeTime_loop 10 (lastTime st) [] @ r < ulid)))"
proof (cases "validateTimestamp (timestampOrNow timestamp now)")
  case (Inl e)
  with call ok show ?thesis
    by (auto simp: ulid_monotonic_invalid)
next
  case (Inr u)
  from validateTimestamp_Inr [OF this] obtain t
    where t: "timestampOrNow timestamp now = Finite (of_int t)" "0 \<le> t" "t \<le> TIME_MAX"
    by blast
  from ok have lt: "0 \<le> lastTime st" "lastTime st \<le> TIME_MAX"
    by (simp_all add: state_ok_def)
  show ?thesis
  proof (cases "t > lastTime st")
    case True
    define random where "random = fst (encodeRandom 16 g)"
    have rnd: "length random = 16" "wellformed random"
      using encodeRandom_shape [of 16 g] by (simp_all add: random_def)
    from ulid_monotonic_forward [OF t True, of g] call
    have res: "res = Inr (encodeTime_loop 10 t [] @ random)"
      and st': "st' = \<lparr>lastTime = t, lastRandom = Some random\<rparr>"
      by (simp_all add: random_def)
    have "t < 32 ^ 10"
      using t(3) by (simp add: TIME_MAX_def)
    then have "encodeTime_loop 10 (lastTime st) [] < encodeTime_loop 10 t []"
      using lt(1) True by (intro encodeTime_loop_less)
    then have "encodeTime_loop 10 (lastTime st) [] @ r < encodeTime_loop 10 t [] @ random" for r
      by (intro less_append_prefix) (simp_all add: length_encodeTime_loop)
    moreover have "state_ok st'"
      using t(2,3) rnd by (simp add: st' state_ok_def)
    ultimately show ?thesis
      using res st' by simp
  next
    case False
    then have le: "t \<le> lastTime st"
      by simp
    note stalled = ulid_monotonic_stalled [OF t le lt(2), of g]
    show ?thesis
    proof (cases "lastRandom st")
      case None
      with stalled call ok show ?thesis
        by auto
    next
      case (Some lr)
      with ok have lr: "length lr = 16" "wellformed lr"
        by (simp_all add: state_ok_def)
      show ?thesis
      proof (cases "incrementBase32 lr")
        case (Inl e)
        with stalled Some call ok show ?thesis
          by auto
      next
        case (Inr r')
        from incrementBase32_random [OF lr Inr]
        have r': "length r' = 16" "wellformed r'" "lr < r'"
          by simp_all
        from stalled Some Inr call
        have res: "res = Inr (encodeTime_loop 10 (lastTime st) [] @ r')"
          and st': "st' = st\<lparr>lastRandom := Some r'\<rparr>"
          by simp_all
        have "encodeTime_loop 10 (lastTime st) [] @ lr < encodeTime_loop 10 (lastTime st) [] @ r'"
          using r'(3) by (rule less_append_same)
        moreover have "state_ok st'"
          using lt r'(1,2) by (simp add: st' state_ok_def)
        ultimately show ?thesis
          using res st' Some by simp
      qed
    qed
  qed
qed

lemma state_ok_fresh: "state_ok \<lparr>lastTime = 0, lastRandom = None\<rparr>"
  by (simp add: state_ok_def TIME_MAX_def)

lemma reachable_state_ok: "reachable gen \<Longrightarrow> gen = Monotonic st \<Longrightarrow> state_ok st"
proof (induction arbitrary: st rule: reachable.induct)
  case (fresh args)
  then show ?case
    using state_ok_fresh by (auto simp: ulidFactory_def Let_def split: if_splits)
next
  case (call gen g now timestamp r gen')
  show ?case
  proof (cases gen)
    case (Monotonic st0)
    with call.IH have ok: "state_ok st0"
      by simp
    obtain res st1 where u: "ulid_monotonic st0 g now timestamp = (res, st1)"
      by (cases "ulid_monotonic st0 g now timestamp")
    with call.hyps(2) call.prems Monotonic have "st = st1"
      by simp
    with ulid_monotonic_step [OF ok u] show ?thesis
      by simp
  next
    case NonMonotonic
    with call.hyps(2) call.prems show ?thesis
      by simp
  qed
qed

text \<open>The results of a run of calls that all succeed, from a state that is \<open>state_ok\<close>.\<close>

lemma run_monotonic_sorted:
  "state_ok st \<Longrightarrow> run (Monotonic st) calls = map Inr ids \<Longrightarrow>
   sorted_wrt (<) ids \<and>
   (\<forall>r. lastRandom st = Some r \<longrightarrow>
        (\<forall>ulid \<in> set ids. encodeTime_loop 10 (lastTime st) [] @ r < ulid))"
proof (induction calls arbitrary: st ids)
  case Nil
  then show ?case by simp
next
  case (Cons c calls)
  obtain timestamp now g where c: "c = (timestamp, now, g)"
    by (cases c)
  obtain res st' where u: "ulid_monotonic st g now timestamp = (res, st')"
    by (cases "ulid_monotonic st g now timestamp")
  from Cons.prems(2) c u have run: "res # run (Monotonic st') calls = map Inr ids"
    by simp
  then obtain ulid ids' where ids: "ids = ulid # ids'" "res = Inr ulid"
    "run (Monotonic st') calls = map Inr ids'"
    by (cases ids) auto
  from ulid_monotonic_step [OF Cons.prems(1) u] ids(2) obtain r'
    where ok': "state_ok st'"
      and r': "lastRandom st' = Some r'" "ulid = encodeTime_loop 10 (lastTime st') [] @ r'"
      and prev: "\<forall>r. lastRandom st = Some r \<longrightarrow> encodeTime_loop 10 (lastTime st) [] @ r < ulid"
    by blast
  from Cons.IH [OF ok' ids(3)] r'
  have IH: "sorted_wrt (<) ids'" "\<forall>x \<in> set ids'. ulid < x"
    by simp_all
  have "sorted_wrt (<) ids"
    using IH by (simp add: ids(1))
  moreover have "\<forall>x \<in> set ids. p < x" if "p < ulid" for p
    using that IH(2) by (auto simp: ids(1))
  ultimately show ?case
    using prev by blast
qed

section \<open>Properties of the generators\<close>

text \<open>
  Claim C1. On one monotonic generator, in whatever state the calls before have left
  it, a sequence of calls that all succeed emits strictly increasing strings in
  lexicographic order, whatever the timestamps, the clock readings and the random bytes
  of the calls are.
\<close>

theorem monotonic_ulids_strictly_increasing:
  assumes "reachable gen" "gen \<noteq> NonMonotonic" "run gen calls = map Inr ids"
  shows "sorted_wrt (<) ids"
proof -
  from assms(2) obtain st where st: "gen = Monotonic st"
    by (cases gen) auto
  from reachable_state_ok [OF assms(1) st] have "state_ok st" .
  from run_monotonic_sorted [OF this] assms(3) st show ?thesis
    by blast
qed

theorem monotonic_ulids_strictly_increasing_witness:
  "reachable (ulidFactory None) \<and> ulidFactory None \<noteq> NonMonotonic \<and>
   run (ulidFactory None)
     [(Some (Finite 1469918176385), 5, \<lambda>_. 0), (Some (Finite 1469918175385), 5, \<lambda>_. 0),
      (None, 1469918089985, \<lambda>_. 0), (Some (Finite 1469918176386), 5, \<lambda>_. 255)] =
   map Inr [''01ARYZ6S410000000000000000'', ''01ARYZ6S410000000000000001'',
            ''01ARYZ6S410000000000000002'', ''01ARYZ6S42ZZZZZZZZZZZZZZZZ''] \<and>
   sorted_wrt (<) [''01ARYZ6S410000000000000000'', ''01ARYZ6S410000000000000001'',
                   ''01ARYZ6S410000000000000002'', ''01ARYZ6S42ZZZZZZZZZZZZZZZZ'']"
proof -
  have a: "reachable (ulidFactory None)"
    by (rule reachable.fresh)
  have b: "ulidFactory None \<noteq> NonMonotonic"
    by (simp add: ulidFactory_def)
  have c: "run (ulidFactory None)
     [(Some (Finite 1469918176385), 5, \<lambda>_. 0), (Some (Finite 1469918175385), 5, \<lambda>_. 0),
      (None, 1469918089985, \<lambda>_. 0), (Some (Finite 1469918176386), 5, \<lambda>_. 255)] =
   map Inr [''01ARYZ6S410000000000000000'', ''01ARYZ6S410000000000000001'',
            ''01ARYZ6S410000000000000002'', ''01ARYZ6S42ZZZZZZZZZZZZZZZZ'']"
    by code_simp
  note d = monotonic_ulids_strictly_increasing [OF a b c]
  show ?thesis
    by (rule conjI [OF a conjI [OF b conjI [OF c d]]])
qed

text \<open>
  Claim C2 at the timestamp 0. The generators resolve the timestamp with
  \<^verbatim>\<open>timestamp || Date.now()\<close>, which takes an explicit 0 for a missing argument: with
  the clock at 1469918176385, a fresh generator of either kind called with the timestamp
  0 emits a ULID whose time decodes to the clock reading, not to 0.
\<close>

theorem explicit_zero_timestamp_replaced_by_clock:
  "generate (ulidFactory (Some False)) (\<lambda>_. 0) 1469918176385 (Some (Finite 0)) =
     (Inr ''01ARYZ6S410000000000000000'', NonMonotonic) \<and>
   generate (ulidFactory None) (\<lambda>_. 0) 1469918176385 (Some (Finite 0)) =
     (Inr ''01ARYZ6S410000000000000000'',
      Monotonic \<lparr>lastTime = 1469918176385, lastRandom = Some ''0000000000000000''\<rparr>) \<and>
   decodeTime ''01ARYZ6S410000000000000000'' = Inr 1469918176385"
  by code_simp

text \<open>
  Every explicit timestamp from 1 to \<open>2^48 - 1\<close> is used: a fresh generator of either
  kind succeeds, and \<open>decodeTime\<close> of its ULID returns the timestamp.
\<close>

lemma explicit_positive_timestamp_used:
  assumes "1 \<le> t" "t \<le> 2 ^ 48 - 1"
  shows "\<exists>ulid gen'. generate (ulidFactory args) g now (Some (Finite (of_int t))) = (Inr ulid, gen') \<and>
           decodeTime ulid = Inr t"
proof -
  have t: "0 \<le> t" "t \<le> TIME_MAX"
    using assms by (simp_all add: TIME_MAX_def)
  have ton: "timestampOrNow (Some (Finite (of_int t))) now = Finite (of_int t)"
    using assms(1) by (simp add: timestampOrNow_def truthy_def)
  define random where "random = fst (encodeRandom 16 g)"
  define ulid where "ulid = encodeTime_loop 10 t [] @ random"
  have "t < 32 ^ 10"
    using assms(2) by simp
  then have v: "decode_integer (encodeTime_loop 10 t []) = t"
    using t(1) by (simp add: decode_integer_encodeTime_loop)
  have len: "length ulid = 26"
    using encodeRandom_shape [of 16 g] by (simp add: ulid_def random_def length_encodeTime_loop)
  have tk: "take 10 ulid = encodeTime_loop 10 t []"
    by (simp add: ulid_def length_encodeTime_loop)
  have dec: "decodeTime ulid = Inr t"
    using decodeTime_wellformed [OF len] tk v assms(2)
    by (simp add: wellformed_encodeTime_loop)
  show ?thesis
  proof (cases "args = Some False")
    case True
    have "generate (ulidFactory args) g now (Some (Finite (of_int t))) = (Inr ulid, NonMonotonic)"
      using True ton validateTimestamp_of_int [OF t] encodeTime_valid [OF t, of 10]
      by (simp add: ulidFactory_def ulid_nonmonotonic_def TIME_LEN_def RANDOM_LEN_def
          ulid_def random_def)
    with dec show ?thesis by blast
  next
    case False
    then have f: "ulidFactory args = Monotonic \<lparr>lastTime = 0, lastRandom = None\<rparr>"
      by (cases args) (auto simp: ulidFactory_def)
    have "t > lastTime \<lparr>lastTime = 0, lastRandom = None\<rparr>"
      using assms(1) by simp
    from ulid_monotonic_forward [OF ton t this, of g]
    have "generate (ulidFactory args) g now (Some (Finite (of_int t))) =
            (Inr ulid, Monotonic \<lparr>lastTime = t, lastRandom = Some random\<rparr>)"
      by (simp add: f ulid_def random_def)
    with dec show ?thesis by blast
  qed
qed

text \<open>
  Claim C3. On a monotonic generator that holds a \<open>lastRandom\<close>, a call whose
  timestamp is valid and not greater than \<open>lastTime\<close> is decided by
  \<open>incrementBase32 lastRandom\<close>: when that succeeds with \<open>r'\<close>, the call emits the
  encoded \<open>lastTime\<close> followed by \<open>r'\<close>, stores \<open>r'\<close> in \<open>lastRandom\<close> and leaves
  \<open>lastTime\<close> as it is; when it fails, the call fails with the same error and changes
  nothing. With a random source of zero bytes, the calls with 1469918176385, a timestamp
  1000 earlier, the same timestamp and a timestamp 86400 earlier emit the four strings
  of the specification.
\<close>

theorem monotonic_stalled_call:
  assumes "reachable (Monotonic st)" "lastRandom st = Some lr"
    and "validateTimestamp (timestampOrNow timestamp now) = Inr ()"
    and "int_of_number (timestampOrNow timestamp now) \<le> lastTime st"
  shows "(\<forall>e. incrementBase32 lr = Inl e \<longrightarrow> ulid_monotonic st g now timestamp = (Inl e, st)) \<and>
         (\<forall>r'. incrementBase32 lr = Inr r' \<longrightarrow>
            (\<exists>t. encodeTime (Finite (of_int (lastTime st))) TIME_LEN = Inr t \<and>
                 ulid_monotonic st g now timestamp =
                   (Inr (t @ r'), st\<lparr>lastRandom := Some r'\<rparr>))) \<and>
         run (ulidFactory None)
           [(Some (Finite 1469918176385), now, \<lambda>_. 0),
            (Some (Finite (1469918176385 - 1000)), now, \<lambda>_. 0),
            (Some (Finite 1469918176385), now, \<lambda>_. 0),
            (Some (Finite (1469918176385 - 86400)), now, \<lambda>_. 0)] =
           [Inr ''01ARYZ6S410000000000000000'', Inr ''01ARYZ6S410000000000000001'',
            Inr ''01ARYZ6S410000000000000002'', Inr ''01ARYZ6S410000000000000003'']"
proof -
  from reachable_state_ok [OF assms(1)] have ok: "state_ok st"
    by simp
  then have lt: "0 \<le> lastTime st" "lastTime st \<le> TIME_MAX"
    by (simp_all add: state_ok_def)
  from validateTimestamp_Inr [OF assms(3)] obtain t
    where t: "timestampOrNow timestamp now = Finite (of_int t)" "0 \<le> t" "t \<le> TIME_MAX"
    by blast
  with assms(4) have le: "t \<le> lastTime st"
    by (simp add: int_of_number_def)
  note stalled = ulid_monotonic_stalled [OF t le lt(2), of g]
  note enc = encodeTime_valid [OF lt, of TIME_LEN]
  have a: "\<forall>e. incrementBase32 lr = Inl e \<longrightarrow> ulid_monotonic st g now timestamp = (Inl e, st)"
    using stalled assms(2) by simp
  have b: "\<forall>r'. incrementBase32 lr = Inr r' \<longrightarrow>
            (\<exists>t. encodeTime (Finite (of_int (lastTime st))) TIME_LEN = Inr t \<and>
                 ulid_monotonic st g now timestamp =
                   (Inr (t @ r'), st\<lparr>lastRandom := Some r'\<rparr>))"
    using stalled assms(2) enc by (simp add: TIME_LEN_def)
  have ts: "timestampOrNow (Some (Finite x)) now = Finite x" if "x \<noteq> 0" for x
    using that by (simp add: timestampOrNow_def truthy_def)
  have c: "run (ulidFactory None)
           [(Some (Finite 1469918176385), now, \<lambda>_. 0),
            (Some (Finite (1469918176385 - 1000)), now, \<lambda>_. 0),
            (Some (Finite 1469918176385), now, \<lambda>_. 0),
            (Some (Finite (1469918176385 - 86400)), now, \<lambda>_. 0)] =
           [Inr ''01ARYZ6S410000000000000000'', Inr ''01ARYZ6S410000000000000001'',
            Inr ''01ARYZ6S410000000000000002'', Inr ''01ARYZ6S410000000000000003'']"
    by code_simp
  show ?thesis
    using a b c by blast
qed


theorem monotonic_stalled_call_witness:
  "reachable (Monotonic \<lparr>lastTime = 1469918176385, lastRandom = Some ''0000000000000000''\<rparr>) \<and>
   lastRandom \<lparr>lastTime = 1469918176385, lastRandom = Some ''0000000000000000''\<rparr> =
     Some ''0000000000000000'' \<and>
   validateTimestamp (timestampOrNow (Some (Finite 1469918175385)) 5) = Inr () \<and>
   int_of_number (timestampOrNow (Some (Finite 1469918175385)) 5) \<le>
     lastTime \<lparr>lastTime = 1469918176385, lastRandom = Some ''0000000000000000''\<rparr> \<and>
   incrementBase32 ''0000000000000000'' = Inr ''0000000000000001'' \<and>
   (\<exists>t. encodeTime (Finite (of_int (lastTime
            \<lparr>lastTime = 1469918176385, lastRandom = Some ''0000000000000000''\<rparr>))) TIME_LEN = Inr t \<and>
        ulid_monotonic \<lparr>lastTime = 1469918176385, lastRandom = Some ''0000000000000000''\<rparr>
            (\<lambda>_. 0) 5 (Some (Finite 1469918175385)) =
          (Inr (t @ ''0000000000000001''),
           \<lparr>lastTime = 1469918176385, lastRandom = Some ''0000000000000000''\<rparr>
             \<lparr>lastRandom := Some ''0000000000000001''\<rparr>))"
proof -
  have g: "generate (ulidFactory None) (\<lambda>_. 0) 5 (Some (Finite 1469918176385)) =
      (Inr ''01ARYZ6S410000000000000000'',
       Monotonic \<lparr>lastTime = 1469918176385, lastRandom = Some ''0000000000000000''\<rparr>)"
    by code_simp
  have h1: "reachable (Monotonic \<lparr>lastTime = 1469918176385, lastRandom = Some ''0000000000000000''\<rparr>)"
    by (rule reachable.call [OF reachable.fresh g])
  have h2: "lastRandom \<lparr>lastTime = 1469918176385, lastRandom = Some ''0000000000000000''\<rparr> =
     Some ''0000000000000000''"
    by simp
  have h3: "validateTimestamp (timestampOrNow (Some (Finite 1469918175385)) 5) = Inr ()"
    by code_simp
  have h4: "int_of_number (timestampOrNow (Some (Finite 1469918175385)) 5) \<le>
     lastTime \<lparr>lastTime = 1469918176385, lastRandom = Some ''0000000000000000''\<rparr>"
    by code_simp
  have e: "incrementBase32 ''0000000000000000'' = Inr ''0000000000000001''"
    by code_simp
  note r = monotonic_stalled_call [OF h1 h2 h3 h4, of "\<lambda>_. 0", THEN conjunct2, THEN conjunct1,
      THEN spec, THEN mp, OF e]
  show ?thesis
    by (rule conjI [OF h1 conjI [OF h2 conjI [OF h3 conjI [OF h4 conjI [OF e r]]]]])
qed

text \<open>
  Claim C9. Every ULID a successful call emits, on either kind of generator and from any
  state the generator can be in, is 26 characters long, and each of its characters is
  one of the 32 symbols \<^verbatim>\<open>0123456789ABCDEFGHJKMNPQRSTVWXYZ\<close>.
\<close>

theorem generated_ulid_shape:
  assumes "reachable gen" "generate gen g now timestamp = (Inr ulid, gen')"
  shows "length ulid = 26 \<and> set ulid \<subseteq> set ''0123456789ABCDEFGHJKMNPQRSTVWXYZ''"
proof -
  have "length ulid = 26 \<and> wellformed ulid"
  proof (cases gen)
    case (Monotonic st)
    from reachable_state_ok [OF assms(1) Monotonic] have ok: "state_ok st" .
    obtain res st' where u: "ulid_monotonic st g now timestamp = (res, st')"
      by (cases "ulid_monotonic st g now timestamp")
    with assms(2) Monotonic have res: "res = Inr ulid"
      by simp
    from ulid_monotonic_step [OF ok u] res obtain r'
      where ok': "state_ok st'" and r': "lastRandom st' = Some r'"
        "ulid = encodeTime_loop 10 (lastTime st') [] @ r'"
      by blast
    from ok' r'(1) have "length r' = 16" "wellformed r'"
      by (simp_all add: state_ok_def)
    with r'(2) show ?thesis
      by (simp add: length_encodeTime_loop wellformed_encodeTime_loop)
  next
    case NonMonotonic
    with assms(2) have n: "ulid_nonmonotonic g now timestamp = Inr ulid"
      by simp
    then obtain u where "validateTimestamp (timestampOrNow timestamp now) = Inr u"
      by (cases "validateTimestamp (timestampOrNow timestamp now)")
        (simp_all add: ulid_nonmonotonic_def)
    from validateTimestamp_Inr [OF this] obtain t
      where t: "timestampOrNow timestamp now = Finite (of_int t)" "0 \<le> t" "t \<le> TIME_MAX"
      by blast
    from n t(1) validateTimestamp_of_int [OF t(2,3)] encodeTime_valid [OF t(2,3), of 10]
    have "ulid = encodeTime_loop 10 t [] @ fst (encodeRandom 16 g)"
      by (simp add: ulid_nonmonotonic_def TIME_LEN_def RANDOM_LEN_def)
    then show ?thesis
      using encodeRandom_shape [of 16 g]
      by (simp add: length_encodeTime_loop wellformed_encodeTime_loop)
  qed
  then show ?thesis
    by (simp add: wellformed_iff ENCODING_def)
qed

theorem generated_ulid_shape_witness:
  "reachable (ulidFactory None) \<and>
   generate (ulidFactory None) (\<lambda>_. 0) 5 (Some (Finite 1469918176385)) =
      (Inr ''01ARYZ6S410000000000000000'',
       Monotonic \<lparr>lastTime = 1469918176385, lastRandom = Some ''0000000000000000''\<rparr>) \<and>
   length ''01ARYZ6S410000000000000000'' = 26 \<and>
   set ''01ARYZ6S410000000000000000'' \<subseteq> set ''0123456789ABCDEFGHJKMNPQRSTVWXYZ''"
proof -
  have a: "reachable (ulidFactory None)"
    by (rule reachable.fresh)
  have g: "generate (ulidFactory None) (\<lambda>_. 0) 5 (Some (Finite 1469918176385)) =
      (Inr ''01ARYZ6S410000000000000000'',
       Monotonic \<lparr>lastTime = 1469918176385, lastRandom = Some ''0000000000000000''\<rparr>)"
    by code_simp
  note r = generated_ulid_shape [OF a g]
  show ?thesis
    by (rule conjI [OF a conjI [OF g r]])
qed

end
